theory Spec2Isabelle
  imports Complex_Main "HOL-Library.Sublist"
begin

section \<open>Python arithmetic used by \<open>pyluach/dates.py\<close>\<close>

text \<open>
  Julian day numbers are Python floats of the form \<open>n + 0.5\<close>. Below \<open>2^52\<close> in absolute
  value every half-integer is a float, and sums, differences and \<open>int()\<close> of such floats
  are exact; there float arithmetic is exact arithmetic on \<^typ>\<open>real\<close>, which is how it
  is modelled. At \<open>2^52\<close> and beyond floats have no fractional part and the model is not
  the program: theorems about arbitrary reals and day counts carry a bound as a hypothesis.
  Python's \<open>int(x)\<close> on a float truncates toward zero; \<open>//\<close> and \<open>%\<close> on integers are
  floor division and its remainder, which is what \<open>div\<close> and \<open>mod\<close> on \<^typ>\<open>int\<close> are.
\<close>

definition py_int :: "real \<Rightarrow> int" where
  "py_int x = (if 0 \<le> x then \<lfloor>x\<rfloor> else \<lceil>x\<rceil>)"

section \<open>Errors and date objects\<close>

text \<open>
  Every \<open>raise ValueError(...)\<close> of the module is one constructor, named after its message.
  \<open>TypeError\<close> is what Python raises when arithmetic meets \<open>None\<close>,
  \<open>AttributeError\<close> when an attribute does not exist, and \<open>DateOutOfRange\<close> is the
  \<open>ValueError\<close> of \<open>datetime.date\<close> for a year, month or day it does not accept.
\<close>

datatype error =
    InvalidMonth int
  | MonthHasDays int
  | YearBelowOne
  | NotLeapYear int
  | BeforeCreation
  | FormatEndsWith string
  | InvalidFormat
  | TypeError
  | AttributeError
  | DateOutOfRange

text \<open>
  \<open>CalendarDateMixin\<close> (lines 237-259) holds the fields of Gregorian and Hebrew dates;
  \<open>cached_jd\<close> is the attribute \<open>_jd\<close>. A \<open>JulianDay\<close> object has the single attribute
  \<open>day\<close>. The three classes are the three constructors of \<open>BaseDate\<close>.
\<close>

record CalendarDateMixin =
  year :: int
  month :: int
  day :: int
  cached_jd :: "real option"

datatype BaseDate =
    JulianDay real
  | GregorianDate CalendarDateMixin
  | HebrewDate CalendarDateMixin

text \<open>
  A method that may loop forever returns \<open>None\<close> for "does not return"; otherwise it
  returns \<open>Some\<close> of an error or a value. A Python value that may be \<open>None\<close> is an option.
\<close>

type_synonym 'a result = "(error + 'a) option"

section \<open>The helpers of \<open>pyluach.utils\<close> and the renderers\<close>

text \<open>
  \<open>dates.py\<close> calls \<open>utils._is_leap\<close>, \<open>utils._month_length\<close> and
  \<open>utils._elapsed_days\<close>, whose module is not among the sources. They are parameters of
  the model: a record of three functions, passed to every operation that calls them.
\<close>

record utils =
  is_leap :: "int \<Rightarrow> bool"
  month_length :: "int \<Rightarrow> int \<Rightarrow> int"
  elapsed_days :: "int \<Rightarrow> int"

text \<open>
  The string producers called by \<open>HebrewDate.__format__\<close> are parameters as well:
  \<open>gematria._num_to_str(num, thousands, withgershayim)\<close>, the table \<open>utils.WEEKDAYS\<close>,
  \<open>utils._month_name(year, month, hebrew)\<close>, the method \<open>strftime(fmt)\<close> of a
  \<open>datetime.date\<close> that has been built, and Python's \<open>str(n)\<close> and \<open>format(n, '02d')\<close>.
\<close>

record renderers =
  num_to_str :: "int \<Rightarrow> bool \<Rightarrow> bool \<Rightarrow> string"
  WEEKDAYS :: "int \<Rightarrow> string"
  month_name :: "int \<Rightarrow> int \<Rightarrow> bool \<Rightarrow> string"
  strftime :: "int \<Rightarrow> int \<Rightarrow> int \<Rightarrow> string \<Rightarrow> string"
  py_str :: "int \<Rightarrow> string"
  format_02d :: "int \<Rightarrow> string"

section \<open>JulianDay\<close>

text \<open>
  \<open>JulianDay.__init__\<close> (lines 310-314): the value stored in \<open>self.day\<close>. The object
  built from \<open>raw\<close> is \<open>JulianDay (JulianDay_init raw)\<close>. The definition is the
  constructor for \<open>|raw| < 2^52\<close>; for larger floats \<open>int(day) - .5\<close> is rounded.
\<close>

definition JulianDay_init :: "real \<Rightarrow> real" where
  "JulianDay_init d =
     (if d - of_int (py_int d) < 1/2
      then of_int (py_int d) - 1/2
      else of_int (py_int d) + 1/2)"

section \<open>GregorianDate\<close>

text \<open>\<open>GregorianDate._is_leap\<close> (lines 566-573) and \<open>GregorianDate._monthlength\<close> (lines 585-593).\<close>

definition GregorianDate_is_leap :: "int \<Rightarrow> bool" where
  "GregorianDate_is_leap year0 =
     (let year = (if year0 < 0 then year0 + 1 else year0)
      in year mod 4 = 0 \<and> \<not> (year mod 100 = 0 \<and> year mod 400 \<noteq> 0))"

definition GregorianDate_monthlength :: "int \<Rightarrow> int \<Rightarrow> int" where
  "GregorianDate_monthlength y m =
     (if m \<in> set [1, 3, 5, 7, 8, 10, 12] then 31
      else if m = 2 then (if GregorianDate_is_leap y then 29 else 28)
      else 30)"

text \<open>\<open>GregorianDate.__init__\<close> (lines 478-489); \<open>jd\<close> is the optional fourth argument.\<close>

definition GregorianDate_init :: "int \<Rightarrow> int \<Rightarrow> int \<Rightarrow> real option \<Rightarrow> error + BaseDate" where
  "GregorianDate_init y m d jd =
     (if m < 1 \<or> m > 12 then Inl (InvalidMonth m)
      else let monthlength = GregorianDate_monthlength y m
           in if d < 1 \<or> d > monthlength then Inl (MonthHasDays monthlength)
              else Inr (GregorianDate \<lparr>year = y, month = m, day = d, cached_jd = jd\<rparr>))"

text \<open>
  The property \<open>GregorianDate.jd\<close> (lines 511-535). The property stores its result in
  \<open>_jd\<close>; the stored value is the value returned, so the model returns it and leaves the
  object as it is. \<open>365.25\<close> is the float \<open>1461/4\<close> exactly. The float \<open>30.6001\<close> is within
  \<open>10^-14\<close> of \<open>306001/10000\<close>, and for the months \<open>4..15\<close> that reach the product the
  fractional part of \<open>30.6001*month\<close> lies between \<open>0.0005\<close> and \<open>0.9\<close>, so \<open>int()\<close> of the
  float product and of the exact product agree. \<open>1720994.5\<close> is \<open>3441989/2\<close>.
\<close>

definition GregorianDate_jd :: "CalendarDateMixin \<Rightarrow> real" where
  "GregorianDate_jd self =
     (case cached_jd self of
        Some v \<Rightarrow> v
      | None \<Rightarrow>
          (let year = year self; month = month self; day = day self;
               year = (if year < 0 then year + 1 else year);
               (year, month) = (if month < 3 then (year - 1, month + 12) else (year, month));
               month = month + 1;
               a = year div 100;
               b = 2 - a + a div 4
           in of_int (py_int (1461/4 * of_int year) + py_int (306001/10000 * of_int month)
                      + b + day) + 3441989/2))"

text \<open>\<open>JulianDay.to_greg\<close> (lines 368-393), the Fliegel-Van Flandern algorithm.\<close>

definition JulianDay_to_greg :: "real \<Rightarrow> error + BaseDate" where
  "JulianDay_to_greg self_day =
     (let jd = py_int (self_day + 1/2);
          L = jd + 68569;
          n = 4*L div 146097;
          L = L - (146097*n + 3) div 4;
          i = (4000 * (L+1)) div 1461001;
          L = L - ((1461*i) div 4) + 31;
          j = (80*L) div 2447;
          day = L - 2447*j div 80;
          L = j div 11;
          month = j + 2 - 12*L;
          year = 100 * (n-49) + i + L;
          year = (if year < 1 then year - 1 else year)
      in GregorianDate_init year month day (Some self_day))"

text \<open>\<open>GregorianDate.to_jd\<close> (lines 595-603).\<close>

definition GregorianDate_to_jd :: "CalendarDateMixin \<Rightarrow> BaseDate" where
  "GregorianDate_to_jd self = JulianDay (JulianDay_init (GregorianDate_jd self))"

section \<open>HebrewDate\<close>

text \<open>
  The month order of the civil year, with Adar II removed in a common year
  (lines 416-418 and 799-801); \<open>list.remove\<close> deletes the first occurrence.
\<close>

definition hebrew_months :: "utils \<Rightarrow> int \<Rightarrow> int list" where
  "hebrew_months U y =
     (let months = [7, 8, 9, 10, 11, 12, 13, 1, 2, 3, 4, 5, 6]
      in if \<not> is_leap U y then remove1 13 months else months)"

text \<open>\<open>HebrewDate.__init__\<close> (lines 690-706).\<close>

definition HebrewDate_init :: "utils \<Rightarrow> int \<Rightarrow> int \<Rightarrow> int \<Rightarrow> real option \<Rightarrow> error + BaseDate" where
  "HebrewDate_init U y m d jd =
     (if y < 1 then Inl YearBelowOne
      else if m < 1 \<or> m > 13 then Inl (InvalidMonth m)
      else if \<not> is_leap U y \<and> m = 13 then Inl (NotLeapYear y)
      else let monthlength = month_length U y m
           in if d < 1 \<or> d > monthlength then Inl (MonthHasDays monthlength)
              else Inr (HebrewDate \<lparr>year = y, month = m, day = d, cached_jd = jd\<rparr>))"

text \<open>
  The property \<open>HebrewDate.jd\<close> (lines 788-810). The \<open>for\<close> loop has no \<open>break\<close>: after
  the month of the date it goes on adding to the local \<open>jd\<close>, and \<open>_jd\<close> keeps the value
  assigned at the month of the date. When no month of the list is the month of the
  date, \<open>_jd\<close> stays \<open>None\<close>. \<open>347996.5\<close> is \<open>695993/2\<close>.
\<close>

fun HebrewDate_jd_loop :: "utils \<Rightarrow> CalendarDateMixin \<Rightarrow> int list \<Rightarrow> int \<Rightarrow> real option \<Rightarrow> real option" where
  "HebrewDate_jd_loop U self [] jd stored = stored"
| "HebrewDate_jd_loop U self (m # months) jd stored =
     (if m \<noteq> month self
      then HebrewDate_jd_loop U self months (jd + month_length U (year self) m) stored
      else HebrewDate_jd_loop U self months jd
             (Some (of_int (jd + (day self - 1)) + 695993/2)))"

definition HebrewDate_jd :: "utils \<Rightarrow> CalendarDateMixin \<Rightarrow> real option" where
  "HebrewDate_jd U self =
     (case cached_jd self of
        Some v \<Rightarrow> Some v
      | None \<Rightarrow>
          HebrewDate_jd_loop U self (hebrew_months U (year self))
            (elapsed_days U (year self)) None)"

text \<open>
  \<open>JulianDay.to_heb\<close> (lines 395-425). The \<open>while\<close> loop that steps the year down may
  run forever for an arbitrary \<open>_elapsed_days\<close>, so it is a partial function. The \<open>for\<close>
  loop over the months returns from inside; when it runs out of months the method
  returns \<open>None\<close>.
\<close>

partial_function (option) to_heb_while :: "utils \<Rightarrow> int \<Rightarrow> int \<Rightarrow> int \<Rightarrow> (int \<times> int) option" where
  "to_heb_while U jd y first_day =
     (if first_day > jd then to_heb_while U jd (y - 1) (elapsed_days U (y - 1))
      else Some (y, first_day))"

fun to_heb_for :: "utils \<Rightarrow> int \<Rightarrow> int list \<Rightarrow> int \<Rightarrow> real \<Rightarrow> error + BaseDate option" where
  "to_heb_for U y [] days_remaining self_day = Inr None"
| "to_heb_for U y (m # months) days_remaining self_day =
     (if days_remaining \<ge> month_length U y m
      then to_heb_for U y months (days_remaining - month_length U y m) self_day
      else map_sum id Some (HebrewDate_init U y m (days_remaining + 1) (Some self_day)))"

definition JulianDay_to_heb :: "utils \<Rightarrow> real \<Rightarrow> BaseDate option result" where
  "JulianDay_to_heb U self_day =
     (if self_day \<le> 347997 then Some (Inl BeforeCreation)
      else let jd = py_int (self_day + 1/2);
               jd = jd - 347997;
               y = jd div 365 + 2
           in case to_heb_while U jd y (elapsed_days U y) of
                None \<Rightarrow> None
              | Some (y, first_day) \<Rightarrow>
                  Some (to_heb_for U y (hebrew_months U y) (jd - first_day) self_day))"

text \<open>
  \<open>HebrewDate.to_jd\<close> and \<open>HebrewDate.to_greg\<close> (lines 847-865). \<open>JulianDay(None)\<close>
  raises \<open>TypeError\<close>.
\<close>

definition HebrewDate_to_jd :: "utils \<Rightarrow> CalendarDateMixin \<Rightarrow> error + BaseDate" where
  "HebrewDate_to_jd U self =
     (case HebrewDate_jd U self of
        None \<Rightarrow> Inl TypeError
      | Some v \<Rightarrow> Inr (JulianDay (JulianDay_init v)))"

definition HebrewDate_to_greg :: "utils \<Rightarrow> CalendarDateMixin \<Rightarrow> error + BaseDate" where
  "HebrewDate_to_greg U self =
     (case HebrewDate_jd U self of
        None \<Rightarrow> Inl TypeError
      | Some v \<Rightarrow> JulianDay_to_greg (JulianDay_init v))"

section \<open>BaseDate: arithmetic, comparison, weekday\<close>

text \<open>The property \<open>jd\<close> of each class; \<open>None\<close> is Python's \<open>None\<close>.\<close>

fun BaseDate_jd :: "utils \<Rightarrow> BaseDate \<Rightarrow> real option" where
  "BaseDate_jd U (JulianDay d) = Some d"
| "BaseDate_jd U (GregorianDate self) = Some (GregorianDate_jd self)"
| "BaseDate_jd U (HebrewDate self) = HebrewDate_jd U self"

text \<open>
  \<open>JulianDay._to_x\<close> (lines 427-438). Its argument is a date of one of the three
  classes, so the final \<open>raise TypeError\<close> is not reached.
\<close>

fun JulianDay_to_x :: "utils \<Rightarrow> real \<Rightarrow> BaseDate \<Rightarrow> BaseDate option result" where
  "JulianDay_to_x U self_day (GregorianDate t) = Some (map_sum id Some (JulianDay_to_greg self_day))"
| "JulianDay_to_x U self_day (HebrewDate t) = JulianDay_to_heb U self_day"
| "JulianDay_to_x U self_day (JulianDay t) = Some (Inr (Some (JulianDay self_day)))"

text \<open>
  \<open>BaseDate.__add__\<close> (lines 72-76) for an integer \<open>other\<close>. When \<open>self.jd\<close> is \<open>None\<close>
  the addition raises \<open>TypeError\<close>, the method returns \<open>NotImplemented\<close>, and the
  operator \<open>+\<close> raises \<open>TypeError\<close>.
\<close>

definition BaseDate_add :: "utils \<Rightarrow> BaseDate \<Rightarrow> int \<Rightarrow> BaseDate option result" where
  "BaseDate_add U self other =
     (case BaseDate_jd U self of
        None \<Rightarrow> Some (Inl TypeError)
      | Some v \<Rightarrow> JulianDay_to_x U (JulianDay_init (v + of_int other)) self)"

text \<open>
  \<open>BaseDate.__sub__\<close> (lines 78-84): the branch taken when \<open>other\<close> is a number, and
  the branch taken when it is a date.
\<close>

definition BaseDate_sub_number :: "utils \<Rightarrow> BaseDate \<Rightarrow> int \<Rightarrow> BaseDate option result" where
  "BaseDate_sub_number U self other =
     (case BaseDate_jd U self of
        None \<Rightarrow> Some (Inl TypeError)
      | Some v \<Rightarrow> JulianDay_to_x U (JulianDay_init (v - of_int other)) self)"


text \<open>
  The right operand of a comparison is a date or, as in \<open>main.py\<close>, an integer.
  \<open>BaseDate.__eq__\<close> and \<open>__ne__\<close> (lines 86-96) return \<open>NotImplemented\<close> (here \<open>None\<close>)
  when \<open>other\<close> has no attribute \<open>jd\<close>. The operator \<open>==\<close> then asks the integer, which
  does not know dates either, and falls back to identity, which is false for a date
  and an integer.
\<close>

datatype operand = Number int | Date BaseDate

fun BaseDate_eq :: "utils \<Rightarrow> BaseDate \<Rightarrow> operand \<Rightarrow> bool option" where
  "BaseDate_eq U self (Date other) = Some (BaseDate_jd U self = BaseDate_jd U other)"
| "BaseDate_eq U self (Number n) = None"


definition py_eq :: "utils \<Rightarrow> BaseDate \<Rightarrow> operand \<Rightarrow> bool" where
  "py_eq U self other = (case BaseDate_eq U self other of Some b \<Rightarrow> b | None \<Rightarrow> False)"






text \<open>\<open>BaseDate.weekday\<close> (lines 122-131) and \<open>BaseDate.shabbos\<close> (lines 147-165).\<close>

definition BaseDate_weekday :: "utils \<Rightarrow> BaseDate \<Rightarrow> error + int" where
  "BaseDate_weekday U self =
     (case BaseDate_jd U self of
        None \<Rightarrow> Inl TypeError
      | Some v \<Rightarrow> Inr (py_int (v + 1/2 + 1) mod 7 + 1))"


section \<open>HebrewDate.__format__\<close>

text \<open>
  \<open>HebrewDate.__format__\<close> (lines 708-786). The index \<open>i\<close> of the source walks the
  string from left to right; the model recurses on the rest of the string, and a read
  past the end (\<open>IndexError\<close>) is the empty rest. \<open>emit s r\<close> is \<open>new.append(s)\<close> followed
  by the rest of the loop; \<open>emit_strftime R pydate f r\<close> is the same for
  \<open>pydate.strftime(f)\<close>, after the \<open>datetime.date\<close> has been built or has raised.
  \<open>curr.casefold() == 'a'\<close> holds for \<open>a\<close> and \<open>A\<close> only, and
  likewise for \<open>y\<close>. The variable \<open>curr\<close> of the source is \<open>cur\<close> here.
\<close>

definition emit :: "string \<Rightarrow> error + string \<Rightarrow> error + string" where
  "emit s r = map_sum id (\<lambda>rest. s @ rest) r"

definition emit_weekday :: "utils \<Rightarrow> CalendarDateMixin \<Rightarrow> (int \<Rightarrow> string) \<Rightarrow> error + string \<Rightarrow> error + string" where
  "emit_weekday U self render r =
     (case BaseDate_weekday U (HebrewDate self) of
        Inl e \<Rightarrow> Inl e
      | Inr w \<Rightarrow> emit (render w) r)"

text \<open>
  The constructor \<open>datetime.date(year, month, day)\<close> of the standard library accepts
  the years \<open>1..9999\<close> (\<open>MINYEAR\<close>, \<open>MAXYEAR\<close>), the months \<open>1..12\<close> and the days of
  the month in the Gregorian calendar, and raises \<open>ValueError\<close> otherwise.
  \<open>GregorianDate.to_pydate\<close> (lines 615-623) is \<open>date(*self.tuple())\<close>, and
  \<open>HebrewDate.to_pydate\<close> (lines 867-875) is \<open>self.to_greg().to_pydate()\<close>.
\<close>

definition datetime_date :: "int \<Rightarrow> int \<Rightarrow> int \<Rightarrow> error + int \<times> int \<times> int" where
  "datetime_date y m d =
     (if y < 1 \<or> y > 9999 then Inl DateOutOfRange
      else if m < 1 \<or> m > 12 then Inl DateOutOfRange
      else if d < 1 \<or> d > GregorianDate_monthlength y m then Inl DateOutOfRange
      else Inr (y, m, d))"

definition HebrewDate_to_pydate :: "utils \<Rightarrow> CalendarDateMixin \<Rightarrow> error + int \<times> int \<times> int" where
  "HebrewDate_to_pydate U self =
     (case HebrewDate_to_greg U self of
        Inr (GregorianDate g) \<Rightarrow> datetime_date (year g) (month g) (day g)
      | Inr _ \<Rightarrow> Inl TypeError
      | Inl e \<Rightarrow> Inl e)"

definition emit_strftime :: "renderers \<Rightarrow> error + int \<times> int \<times> int \<Rightarrow> string \<Rightarrow> error + string \<Rightarrow> error + string" where
  "emit_strftime R pydate f r =
     (case pydate of
        Inl e \<Rightarrow> Inl e
      | Inr (y, m, d) \<Rightarrow> emit (strftime R y m d f) r)"

fun HebrewDate_format :: "utils \<Rightarrow> renderers \<Rightarrow> CalendarDateMixin \<Rightarrow> string \<Rightarrow> error + string" where
  "HebrewDate_format U R self [] = Inr []"
| "HebrewDate_format U R self (c # fmt) =
     (if c \<noteq> CHR ''%'' then emit [c] (HebrewDate_format U R self fmt)
      else case fmt of
        [] \<Rightarrow> Inl (FormatEndsWith ''%'')
      | cur # fmt1 \<Rightarrow>
          if cur = CHR ''%'' then emit ''%'' (HebrewDate_format U R self fmt1)
          else if cur = CHR ''*'' then
            (case fmt1 of
               [] \<Rightarrow> Inl (FormatEndsWith ''%*'')
             | cur # fmt2 \<Rightarrow>
                 if cur = CHR ''-'' then
                   (case fmt2 of
                      [] \<Rightarrow> Inl (FormatEndsWith ''%*-'')
                    | cur # fmt3 \<Rightarrow>
                        if cur = CHR ''d''
                        then emit (num_to_str R (day self) False False)
                               (HebrewDate_format U R self fmt3)
                        else Inl InvalidFormat)
                 else if cur = CHR ''a''
                   then emit_weekday U self (\<lambda>w. num_to_str R w False True)
                          (HebrewDate_format U R self fmt2)
                 else if cur = CHR ''A''
                   then emit_weekday U self (WEEKDAYS R) (HebrewDate_format U R self fmt2)
                 else if cur = CHR ''d''
                   then emit (num_to_str R (day self) False True)
                          (HebrewDate_format U R self fmt2)
                 else if cur = CHR ''B''
                   then emit (month_name R (year self) (month self) True)
                          (HebrewDate_format U R self fmt2)
                 else if cur = CHR ''y'' \<or> cur = CHR ''Y''
                   then emit (num_to_str R (year self) (cur = CHR ''Y'') True)
                          (HebrewDate_format U R self fmt2)
                 else Inl InvalidFormat)
          else if cur = CHR ''-'' then
            (case fmt1 of
               [] \<Rightarrow> Inl (FormatEndsWith ''%-'')
             | cur # fmt2 \<Rightarrow>
                 if cur = CHR ''d''
                   then emit (py_str R (day self)) (HebrewDate_format U R self fmt2)
                 else if cur = CHR ''m''
                   then emit (py_str R (month self)) (HebrewDate_format U R self fmt2)
                 else Inl InvalidFormat)
          else if cur = CHR ''a'' \<or> cur = CHR ''A''
            then emit_strftime R (HebrewDate_to_pydate U self) [CHR ''%'', cur]
                   (HebrewDate_format U R self fmt1)
          else if cur = CHR ''w''
            then emit_weekday U self (py_str R) (HebrewDate_format U R self fmt1)
          else if cur = CHR ''d''
            then emit (format_02d R (day self)) (HebrewDate_format U R self fmt1)
          else if cur = CHR ''B''
            then emit (month_name R (year self) (month self) False)
                   (HebrewDate_format U R self fmt1)
          else if cur = CHR ''m''
            then emit (format_02d R (month self)) (HebrewDate_format U R self fmt1)
          else if cur = CHR ''y'' \<or> cur = CHR ''Y''
            then emit_strftime R (datetime_date (year self) 1 1) [CHR ''%'', cur]
                   (HebrewDate_format U R self fmt1)
          else Inl InvalidFormat)"

section \<open>The caller \<open>main.py\<close>\<close>

text \<open>
  \<open>hebrew_month\<close> (lines 29-59); \<open>htoday\<close> is a \<open>HebrewDate\<close>. A function that reaches
  its end returns \<open>None\<close>. \<open>HebrewDate\<close> has no attribute \<open>hebrew_leap\<close>, so the call in the
  branch for month 12 raises \<open>AttributeError\<close>.
\<close>

definition hebrew_month :: "utils \<Rightarrow> CalendarDateMixin \<Rightarrow> error + string option" where
  "hebrew_month U htoday =
     (if month htoday = 1 then Inr (Some ''Nisan'')
      else if month htoday = 2 then Inr (Some ''Iyyar'')
      else if month htoday = 3 then Inr (Some ''Sivan'')
      else if month htoday = 4 then Inr (Some ''Tammuz'')
      else if month htoday = 5 then Inr (Some ''Av'')
      else if month htoday = 6 then Inr (Some ''Elul'')
      else if month htoday = 7 then Inr (Some ''Tishri'')
      else if month htoday = 8 then Inr (Some ''Heshvan'')
      else if month htoday = 9 then Inr (Some ''Kislev'')
      else if month htoday = 10 then Inr (Some ''Teveth'')
      else if py_eq U (HebrewDate htoday) (Number 11) then Inr (Some ''Shevat'')
      else if py_eq U (HebrewDate htoday) (Number 12) then Inl AttributeError
      else if py_eq U (HebrewDate htoday) (Number 13) then Inr (Some ''Adar II'')
      else Inr None)"

section \<open>Specification-side definitions\<close>

text \<open>
  The normalisation as the specification words it (section 4.1): the fractional part is
  taken with respect to \<open>floor\<close>.
\<close>

definition normalize_spec :: "real \<Rightarrow> real" where
  "normalize_spec raw =
     (if frac raw < 1/2 then of_int \<lfloor>raw\<rfloor> - 1/2 else of_int \<lfloor>raw\<rfloor> + 1/2)"

text \<open>A value is canonical when the constructor stores it unchanged.\<close>

definition canonical :: "real \<Rightarrow> bool" where
  "canonical v = (JulianDay_init v = v)"

text \<open>
  The date objects the program can hold: a \<open>JulianDay\<close> built by its constructor; a
  Gregorian or Hebrew date whose fields pass the validation of its constructor, and
  whose \<open>_jd\<close> is either not yet computed or the day of the \<open>JulianDay\<close> it was
  converted from (for a Hebrew date, a day that \<open>to_heb\<close> accepts).
\<close>

fun valid_date :: "utils \<Rightarrow> BaseDate \<Rightarrow> bool" where
  "valid_date U (JulianDay d) = canonical d"
| "valid_date U (GregorianDate c) =
     (GregorianDate_init (year c) (month c) (day c) (cached_jd c) = Inr (GregorianDate c) \<and>
      (case cached_jd c of None \<Rightarrow> True | Some v \<Rightarrow> canonical v))"
| "valid_date U (HebrewDate c) =
     (HebrewDate_init U (year c) (month c) (day c) (cached_jd c) = Inr (HebrewDate c) \<and>
      (case cached_jd c of None \<Rightarrow> True | Some v \<Rightarrow> canonical v \<and> 347997 < v))"

text \<open>Two dates are of the same class.\<close>

fun same_class :: "BaseDate \<Rightarrow> BaseDate \<Rightarrow> bool" where
  "same_class (JulianDay a) (JulianDay b) = True"
| "same_class (GregorianDate a) (GregorianDate b) = True"
| "same_class (HebrewDate a) (HebrewDate b) = True"
| "same_class a b = False"

text \<open>
  The contract of the two calendar helpers (specification, section 6): \<open>_elapsed_days\<close>
  is the day offset of 1 Tishrei from the epoch, so it is \<open>1\<close> for year \<open>1\<close> and grows from
  one year to the next by the lengths of the months of the year; a month has at least
  one day; and the helper stays above \<open>365 * (year - 2)\<close>, which is what the year estimate
  \<open>jd // 365 + 2\<close> of \<open>to_heb\<close> relies on.
\<close>

definition calendar_contract :: "utils \<Rightarrow> bool" where
  "calendar_contract U =
     (elapsed_days U 1 = 1 \<and>
      (\<forall>y\<ge>1. elapsed_days U (y + 1) =
               elapsed_days U y + sum_list (map (month_length U y) (hebrew_months U y))) \<and>
      (\<forall>y\<ge>1. \<forall>m \<in> set (hebrew_months U y). 1 \<le> month_length U y m) \<and>
      (\<forall>y\<ge>1. 365 * (y - 2) < elapsed_days U y))"

text \<open>
  A calendar of twelve months and 365 days that meets the contract; theorems that
  assume the contract are instantiated with it.
\<close>

definition example_utils :: utils where
  "example_utils =
     \<lparr>is_leap = (\<lambda>y. False),
      month_length = (\<lambda>y m. if m \<in> set [7, 8, 9, 10, 11] then 31 else 30),
      elapsed_days = (\<lambda>y. 365 * (y - 1) + 1)\<rparr>"

text \<open>Renderers to instantiate theorems with: every one returns its name.\<close>

definition example_renderers :: renderers where
  "example_renderers =
     \<lparr>num_to_str = (\<lambda>n t g. ''num_to_str''),
      WEEKDAYS = (\<lambda>w. ''WEEKDAYS''),
      month_name = (\<lambda>y m h. ''month_name''),
      strftime = (\<lambda>y m d f. ''strftime''),
      py_str = (\<lambda>n. ''str''),
      format_02d = (\<lambda>n. ''02d'')\<rparr>"

text \<open>
  The Gregorian leap-year rule and month lengths as the specification words them
  (section 4.2).
\<close>

definition isLeapYear_spec :: "int \<Rightarrow> bool" where
  "isLeapYear_spec y0 =
     (let y = (if y0 < 0 then y0 + 1 else y0)
      in y mod 4 = 0 \<and> (y mod 100 \<noteq> 0 \<or> y mod 400 = 0))"

definition monthLength_spec :: "int \<Rightarrow> int \<Rightarrow> int" where
  "monthLength_spec y m =
     (if m \<in> {1, 3, 5, 7, 8, 10, 12} then 31
      else if m \<in> {4, 6, 9, 11} then 30
      else if isLeapYear_spec y then 29 else 28)"

text \<open>
  The directive table of the specification (section 4.5), and the strings made of
  literal characters and directives of the table.
\<close>

definition directives :: "string list" where
  "directives =
     [''%%'', ''%d'', ''%-d'', ''%m'', ''%-m'', ''%B'', ''%a'', ''%A'', ''%w'', ''%y'', ''%Y'',
      ''%*d'', ''%*-d'', ''%*B'', ''%*a'', ''%*A'', ''%*y'', ''%*Y'']"

text \<open>The errors that \<open>__format__\<close> raises itself.\<close>

definition format_error :: "error \<Rightarrow> bool" where
  "format_error e =
     (e = InvalidFormat \<or> e \<in> FormatEndsWith ` {''%'', ''%*'', ''%-'', ''%*-''})"

function only_directives :: "string \<Rightarrow> bool" where
  "only_directives [] = True"
| "only_directives (c # s) =
     (if c \<noteq> CHR ''%'' then only_directives s
      else \<exists>d \<in> set directives. prefix d (c # s) \<and> only_directives (drop (length d) (c # s)))"
  by pat_completeness auto
termination
  by (relation "measure length") (auto simp: directives_def)

text \<open>
  The outcome of formatting agrees with the table: a string when every directive is
  in the table, and otherwise one of the errors of \<open>__format__\<close>.
\<close>

definition format_agrees :: "error + string \<Rightarrow> bool \<Rightarrow> bool" where
  "format_agrees r ok = (case r of Inr s \<Rightarrow> ok | Inl e \<Rightarrow> \<not> ok \<and> format_error e)"

section \<open>Properties of JulianDay\<close>

lemma floor_add_half: "\<lfloor>of_int k + 1/2 :: real\<rfloor> = k"
  by linarith

lemma ceiling_add_half: "\<lceil>of_int k + 1/2 :: real\<rceil> = k + 1"
  by linarith

lemma py_int_of_int: "py_int (of_int z) = z"
  by (simp add: py_int_def)

lemma py_int_add_half:
  "py_int (of_int k + 1/2) = (if 0 \<le> k then k else k + 1)"
proof (cases "0 \<le> k")
  case True
  then have "(0::real) \<le> of_int k + 1/2" by simp
  with True show ?thesis by (simp add: py_int_def floor_add_half)
next
  case False
  then have "k \<le> -1" by simp
  then have "real_of_int k \<le> -1" by linarith
  then have "\<not> (0::real) \<le> of_int k + 1/2" by simp
  with False show ?thesis by (simp add: py_int_def ceiling_add_half)
qed

lemma JulianDay_init_half: "JulianDay_init (of_int k + 1/2) = of_int k + 1/2"
  by (simp add: JulianDay_init_def py_int_add_half)

lemma canonical_half: "canonical (of_int k + 1/2)"
  by (simp add: canonical_def JulianDay_init_half)

lemma JulianDay_init_cases:
  "\<exists>k. JulianDay_init d = of_int k + 1/2"
proof (cases "d - of_int (py_int d) < 1/2")
  case True
  then have "JulianDay_init d = of_int (py_int d - 1) + 1/2"
    by (simp add: JulianDay_init_def)
  then show ?thesis by blast
next
  case False
  then have "JulianDay_init d = of_int (py_int d) + 1/2"
    by (simp add: JulianDay_init_def)
  then show ?thesis by blast
qed

lemma canonicalE: "canonical v \<Longrightarrow> \<exists>k. v = of_int k + 1/2"
  using JulianDay_init_cases [of v] by (auto simp: canonical_def)

lemma canonical_init: "canonical (JulianDay_init d)"
  using JulianDay_init_cases [of d] canonical_half by auto

text \<open>
  C3 (as stated it fails): at \<open>raw = -1.7\<close> the constructor stores \<open>-1.5\<close>, while the
  floor-based rule of the specification gives \<open>-2.5\<close>.
\<close>

theorem C3_negative_counterexample:
  "JulianDay_init (-17/10) = -3/2 \<and> normalize_spec (-17/10) = -5/2"
  by (simp add: JulianDay_init_def normalize_spec_def py_int_def frac_def)

text \<open>
  C3 (amended): for every real \<open>raw\<close> with \<open>|raw| < 2^52\<close>, the range in which the float
  arithmetic of the constructor is exact: if \<open>raw \<ge> 0\<close> the constructor stores the
  canonical midnight form of the specification (\<open>floor(raw) - 0.5\<close> when the fractional
  part is below \<open>0.5\<close>, \<open>floor(raw) + 0.5\<close> otherwise); if \<open>raw\<close> is negative the truncation
  toward zero of \<open>int()\<close> makes it store \<open>ceiling(raw) - 0.5\<close>.
\<close>

theorem C3_normalization:
  assumes "\<bar>raw\<bar> < 2^52"
  shows "(0 \<le> raw \<longrightarrow> JulianDay_init raw = normalize_spec raw) \<and>
         (raw < 0 \<longrightarrow> JulianDay_init raw = of_int \<lceil>raw\<rceil> - 1/2)"
proof (intro conjI impI)
  assume "0 \<le> raw"
  then show "JulianDay_init raw = normalize_spec raw"
    by (simp add: JulianDay_init_def normalize_spec_def py_int_def frac_def)
next
  assume neg: "raw < 0"
  then have "raw - of_int \<lceil>raw\<rceil> < 1/2" by linarith
  with neg show "JulianDay_init raw = of_int \<lceil>raw\<rceil> - 1/2"
    by (simp add: JulianDay_init_def py_int_def)
qed

theorem C3_normalization_witness:
  "\<bar>17/10 :: real\<bar> < 2^52 \<and> \<bar>-17/10 :: real\<bar> < 2^52 \<and>
   JulianDay_init (17/10) = normalize_spec (17/10) \<and>
   JulianDay_init (17/10) = 3/2 \<and>
   JulianDay_init (-17/10) = of_int \<lceil>-17/10 :: real\<rceil> - 1/2"
proof -
  have a: "\<bar>17/10 :: real\<bar> < 2^52" and b: "\<bar>-17/10 :: real\<bar> < 2^52" by simp_all
  from C3_normalization [OF a] C3_normalization [OF b] a b show ?thesis
    by (simp add: normalize_spec_def frac_def)
qed

section \<open>Arithmetic of the Gregorian conversions\<close>

lemma div_bounds:
  fixes a b :: int
  assumes "0 < b"
  shows "b * (a div b) \<le> a" and "a < b * (a div b) + b"
proof -
  have "a = b * (a div b) + a mod b" by simp
  moreover have "0 \<le> a mod b" "a mod b < b" using assms by simp_all
  ultimately show "b * (a div b) \<le> a" and "a < b * (a div b) + b" by linarith+
qed

lemma div_eqI:
  fixes a b q :: int
  assumes "b * q \<le> a" "a < b * q + b"
  shows "a div b = q"
proof -
  have "0 < b" using assms by linarith
  have "a = q * b + (a - b * q)" by (simp add: algebra_simps)
  moreover have "0 \<le> a - b * q" "a - b * q < b" using assms by linarith+
  ultimately show ?thesis
    by (metis div_pos_pos_trivial div_mult_self3 add.right_neutral \<open>0 < b\<close> less_irrefl)
qed

lemma mod4_1461: "(1461 * i) mod 4 = i mod (4::int)"
proof -
  have "1461 * i = 4 * (365 * i) + i" by simp
  then show ?thesis by (metis mod_mult_self4)
qed

lemma partB1:
  fixes L1 :: int
  assumes "0 \<le> L1" "L1 \<le> 36524"
  defines "i \<equiv> (4000 * (L1+1)) div 1461001"
  defines "doy \<equiv> L1 - (1461*i) div 4"
  shows "0 \<le> i" "i \<le> 99" "0 \<le> doy" "doy \<le> 365" "doy = 365 \<longrightarrow> i mod 4 = 3"
proof -
  define q where "q = (1461*i) div 4"
  define r where "r = (1461*i) mod 4"
  have i1: "1461001 * i \<le> 4000 * L1 + 4000" and i2: "4000 * L1 + 4000 < 1461001 * i + 1461001"
    unfolding i_def using div_bounds [of 1461001 "4000 * (L1+1)"] by simp_all
  have qr: "1461 * i = 4 * q + r" unfolding q_def r_def by simp
  have r0: "0 \<le> r" and r3: "r \<le> 3" unfolding r_def by simp_all
  have ri: "r = i mod 4" unfolding r_def by (rule mod4_1461)
  show a: "0 \<le> i" using i2 assms(1) by linarith
  show b: "i \<le> 99" using i1 assms(2) by linarith
  have d: "doy = L1 - q" by (simp add: doy_def q_def)
  show "0 \<le> doy" using d i1 qr r0 a assms(1) by linarith
  show "doy \<le> 365" using d i2 qr r3 b by linarith
  show "doy = 365 \<longrightarrow> i mod 4 = 3"
  proof
    assume "doy = 365"
    then have "r = 3" using d i2 qr r3 r0 b by linarith
    then show "i mod 4 = 3" using ri by simp
  qed
qed

lemma partB2:
  fixes y doy :: int
  assumes "0 \<le> y" "y \<le> 99" "0 \<le> doy" "doy \<le> 364 \<or> (doy = 365 \<and> y mod 4 = 3)"
  shows "(4000 * ((1461*y) div 4 + doy + 1)) div 1461001 = y"
proof -
  define q where "q = (1461*y) div 4"
  define r where "r = (1461*y) mod 4"
  have qr: "1461 * y = 4 * q + r" unfolding q_def r_def by simp
  have r0: "0 \<le> r" and r3: "r \<le> 3" unfolding r_def by simp_all
  have ri: "r = y mod 4" unfolding r_def by (rule mod4_1461)
  have lo: "1461001 * y \<le> 4000 * q + 4000 * doy + 4000" using qr r3 assms(1-3) by linarith
  have c: "4000 * doy + 4000 - 1000 * r \<le> 1461000"
  proof (cases "doy \<le> 364")
    case True
    then show ?thesis using r0 by linarith
  next
    case False
    with assms(4) have "doy = 365" "r = 3" using ri by simp_all
    then show ?thesis by simp
  qed
  have hi: "4000 * q + 4000 * doy + 4000 < 1461001 * y + 1461001" using qr c assms(1) by linarith
  have e: "4000 * (q + doy + 1) = 4000 * q + 4000 * doy + 4000" by simp
  from lo hi show ?thesis unfolding q_def [symmetric] e by (rule div_eqI)
qed

lemma partA_range:
  fixes L :: int
  defines "n \<equiv> 4*L div 146097"
  defines "L1 \<equiv> L - (146097*n + 3) div 4"
  shows "0 \<le> L1" "L1 \<le> 36524" "L1 = 36524 \<longrightarrow> n mod 4 = 0"
proof -
  define m where "m = (146097*n + 3) div 4"
  have n1: "146097 * n \<le> 4 * L" and n2: "4 * L < 146097 * n + 146097"
    unfolding n_def using div_bounds [of 146097 "4 * L"] by simp_all
  have m1: "4 * m \<le> 146097 * n + 3" and m2: "146097 * n + 3 < 4 * m + 4"
    unfolding m_def using div_bounds [of 4 "146097*n + 3"] by simp_all
  have d: "L1 = L - m" by (simp add: L1_def m_def)
  show "0 \<le> L1" using d n1 m1 by linarith
  show "L1 \<le> 36524" using d n2 m2 by linarith
  show "L1 = 36524 \<longrightarrow> n mod 4 = 0"
  proof
    assume "L1 = 36524"
    then have "146097 * n = 4 * m" using d n2 m2 m1 n1 by linarith
    then have "n = 4 * m - 146096 * n" by linarith
    then have "n = 4 * (m - 36524 * n)" by simp
    then show "n mod 4 = 0" by (metis mod_mult_self1_is_0)
  qed
qed

lemma partA_fwd:
  fixes a L1s :: int
  assumes "0 \<le> L1s" "4 * L1s < a mod 4 + 146094"
  defines "L \<equiv> 36524 * a + a div 4 + L1s + 1789689"
  shows "4 * L div 146097 = a + 49" and "L - (146097 * (a + 49) + 3) div 4 = L1s"
proof -
  define s where "s = a div 4"
  define t where "t = a mod 4"
  have st: "a = 4 * s + t" unfolding s_def t_def by simp
  have t0: "0 \<le> t" and t3: "t \<le> 3" unfolding t_def by simp_all
  have L: "L = 36524 * a + s + L1s + 1789689" by (simp add: L_def s_def)
  have lo: "146097 * a + 7158753 \<le> 4 * L" using L st t3 assms(1) by linarith
  have hi: "4 * L < 146097 * a + 7158753 + 146097" using L st assms(2) t_def by linarith
  have e: "146097 * (a + 49) = 146097 * a + 7158753" by simp
  from lo hi show "4 * L div 146097 = a + 49" unfolding e [symmetric] by (rule div_eqI)
  define c where "c = 36524 * a + s + 1789689"
  have "4 * c \<le> 146097 * a + 7158756" using st t0 c_def by linarith
  moreover have "146097 * a + 7158756 < 4 * c + 4" using st t3 c_def by linarith
  ultimately have "(146097 * a + 7158756) div 4 = c" by (rule div_eqI)
  moreover have "146097 * (a + 49) + 3 = 146097 * a + 7158756" by simp
  ultimately show "L - (146097 * (a + 49) + 3) div 4 = L1s" using L c_def by simp
qed

lemma py_int_div:
  assumes "0 \<le> a" "0 < b"
  shows "py_int (of_int a / of_int b) = a div b"
proof -
  have "(0::real) \<le> of_int a / of_int b" using assms by simp
  then show ?thesis by (simp add: py_int_def floor_divide_of_int_eq)
qed

lemma to_greg_chain:
  assumes "py_int (v + 1/2) = J"
      and "4 * (J + 68569) div 146097 = n"
      and "J + 68569 - (146097 * n + 3) div 4 = L1"
      and "(4000 * (L1 + 1)) div 1461001 = i"
      and "L1 - (1461 * i) div 4 + 31 = L2"
      and "(80 * L2) div 2447 = j"
      and "L2 - 2447 * j div 80 = dd"
      and "j div 11 = L3"
      and "j + 2 - 12 * L3 = mm"
      and "100 * (n - 49) + i + L3 = yy"
  shows "JulianDay_to_greg v = GregorianDate_init (if yy < 1 then yy - 1 else yy) mm dd (Some v)"
  unfolding JulianDay_to_greg_def Let_def by (simp only: assms)

lemma py_int_365:
  assumes "0 \<le> Y"
  shows "py_int (1461/4 * of_int Y) = 1461 * Y div 4"
proof -
  have "(1461/4 * of_int Y :: real) = of_int (1461 * Y) / of_int 4" by simp
  moreover have "0 \<le> 1461 * Y" using assms by simp
  ultimately show ?thesis using py_int_div [of "1461 * Y" 4] by simp
qed

lemma py_int_306:
  assumes "0 \<le> M"
  shows "py_int (306001/10000 * of_int M) = 306001 * M div 10000"
proof -
  have "(306001/10000 * of_int M :: real) = of_int (306001 * M) / of_int 10000" by simp
  moreover have "0 \<le> 306001 * M" using assms by simp
  ultimately show ?thesis using py_int_div [of "306001 * M" 10000] by simp
qed

lemma GregorianDate_jd_AD:
  assumes "1 \<le> y" "1 \<le> m"
  defines "Y \<equiv> (if m < 3 then y - 1 else y)"
  defines "M \<equiv> (if m < 3 then m + 12 else m) + 1"
  shows "GregorianDate_jd \<lparr>year = y, month = m, day = d, cached_jd = None\<rparr> =
         of_int (1461 * Y div 4 + 306001 * M div 10000 + (2 - Y div 100 + Y div 100 div 4) + d)
         + 3441989/2"
proof -
  have Y0: "0 \<le> Y" and M0: "0 \<le> M" using assms by (auto simp: Y_def M_def)
  have "GregorianDate_jd \<lparr>year = y, month = m, day = d, cached_jd = None\<rparr> =
        of_int (py_int (1461/4 * of_int Y) + py_int (306001/10000 * of_int M)
                + (2 - Y div 100 + Y div 100 div 4) + d) + 3441989/2"
    using assms(1) by (simp add: GregorianDate_jd_def Y_def M_def Let_def)
  then show ?thesis by (simp only: py_int_365 [OF Y0] py_int_306 [OF M0])
qed

lemma mod_eqD:
  fixes a b r :: int
  assumes "a mod b = r"
  shows "a = b * (a div b) + r"
proof -
  have "b * (a div b) + a mod b = a" by (rule mult_div_mod_eq)
  then show ?thesis unfolding assms by (rule sym)
qed

lemma mod_4_3: "(3 + 4 * k) mod 4 = (3::int)"
proof -
  have "(3 + 4 * k) mod 4 = 3 mod (4::int)" by (rule mod_mult_self2)
  then show ?thesis by simp
qed

lemma leap1:
  fixes y :: int
  assumes "y mod 4 = 0"
  shows "((y - 1) mod 100) mod 4 = 3"
proof -
  have a: "((y - 1) mod 100) mod 4 = (y - 1) mod 4" by (simp add: mod_mod_cancel)
  define q where "q = y div 4"
  have "y = 4 * q + 0" unfolding q_def using assms by (rule mod_eqD)
  then have "y - 1 = 3 + 4 * (q - 1)" by (simp add: algebra_simps)
  then have "(y - 1) mod 4 = (3 + 4 * (q - 1)) mod 4" by (rule arg_cong)
  then have "(y - 1) mod 4 = 3" by (simp only: mod_4_3)
  with a show ?thesis by simp
qed

lemma leap2:
  fixes y :: int
  assumes "(y - 1) mod 100 = 99" "\<not> (y mod 100 = 0 \<and> y mod 400 \<noteq> 0)"
  shows "((y - 1) div 100) mod 4 = 3"
proof -
  define k where "k = (y - 1) div 100"
  have "y - 1 = 100 * k + 99" unfolding k_def using assms(1) by (rule mod_eqD)
  then have y: "y = 100 * k + 100" by linarith
  then have "y = 100 * (k + 1)" by simp
  then have "y mod 100 = 0" by simp
  with assms(2) have "y mod 400 = 0" by blast
  define q where "q = y div 400"
  have "y mod 400 = 0" by fact
  then have "y = 400 * q + 0" unfolding q_def by (rule mod_eqD)
  with y have "k = 4 * q - 1" by linarith
  then have "k = 3 + 4 * (q - 1)" by (simp add: algebra_simps)
  then have "k mod 4 = (3 + 4 * (q - 1)) mod 4" by (rule arg_cong)
  then have "k mod 4 = 3" by (simp only: mod_4_3)
  then show ?thesis by (simp add: k_def)
qed

lemma partC2:
  "\<forall>m \<in> set [1..12]. \<forall>d \<in> set [1..31].
     d \<le> (if m \<in> set [1, 3, 5, 7, 8, 10, 12] then 31 else if m = 2 then 29 else 30) \<longrightarrow>
     (let M = (if m < 3 then m + 12 else m) + 1;
          doy = (306001 * M) div 10000 - 122 + d - 1;
          L = doy + 31; j = (80*L) div 2447; day = L - 2447*j div 80;
          L3 = j div 11; month = j + 2 - 12*L3
      in month = m \<and> day = d \<and> L3 = (if m < 3 then 1 else 0) \<and> 0 \<le> doy \<and>
         (doy \<le> 364 \<or> (m = 2 \<and> d = 29 \<and> doy = 365)))"
  by code_simp

lemma partC2':
  fixes m d :: int
  assumes "1 \<le> m" "m \<le> 12" "1 \<le> d" "d \<le> 31"
    "d \<le> (if m \<in> set [1, 3, 5, 7, 8, 10, 12] then 31 else if m = 2 then 29 else 30)"
  defines "doy \<equiv> (306001 * ((if m < 3 then m + 12 else m) + 1)) div 10000 - 122 + d - 1"
  shows "(80 * (doy + 31)) div 2447 + 2 - 12 * ((80 * (doy + 31)) div 2447 div 11) = m"
    and "doy + 31 - 2447 * ((80 * (doy + 31)) div 2447) div 80 = d"
    and "(80 * (doy + 31)) div 2447 div 11 = (if m < 3 then 1 else 0)"
    and "0 \<le> doy"
    and "doy \<le> 364 \<or> (m = 2 \<and> d = 29 \<and> doy = 365)"
proof -
  have "m \<in> set [1..12]" using assms(1,2) by (simp only: set_upto atLeastAtMost_iff)
  moreover have "d \<in> set [1..31]" using assms(3,4) by (simp only: set_upto atLeastAtMost_iff)
  ultimately have
    "(let M = (if m < 3 then m + 12 else m) + 1;
          doy = (306001 * M) div 10000 - 122 + d - 1;
          L = doy + 31; j = (80*L) div 2447; day = L - 2447*j div 80;
          L3 = j div 11; month = j + 2 - 12*L3
      in month = m \<and> day = d \<and> L3 = (if m < 3 then 1 else 0) \<and> 0 \<le> doy \<and>
         (doy \<le> 364 \<or> (m = 2 \<and> d = 29 \<and> doy = 365)))"
    using partC2 assms(5) by blast
  then have *: "(80 * (doy + 31)) div 2447 + 2 - 12 * ((80 * (doy + 31)) div 2447 div 11) = m \<and>
     doy + 31 - 2447 * ((80 * (doy + 31)) div 2447) div 80 = d \<and>
     (80 * (doy + 31)) div 2447 div 11 = (if m < 3 then 1 else 0) \<and> 0 \<le> doy \<and>
     (doy \<le> 364 \<or> (m = 2 \<and> d = 29 \<and> doy = 365))"
    unfolding Let_def doy_def .
  from * show "(80 * (doy + 31)) div 2447 + 2 - 12 * ((80 * (doy + 31)) div 2447 div 11) = m" by blast
  from * show "doy + 31 - 2447 * ((80 * (doy + 31)) div 2447) div 80 = d" by blast
  from * show "(80 * (doy + 31)) div 2447 div 11 = (if m < 3 then 1 else 0)" by blast
  from * show "0 \<le> doy" by blast
  from * show "doy \<le> 364 \<or> (m = 2 \<and> d = 29 \<and> doy = 365)" by blast
qed

lemma monthlength_le:
  "GregorianDate_monthlength y m \<le>
     (if m \<in> set [1, 3, 5, 7, 8, 10, 12] then 31 else if m = 2 then 29 else 30)"
  by (simp add: GregorianDate_monthlength_def)

lemma greg_roundtrip:
  assumes m: "1 \<le> m" "m \<le> 12" and d: "1 \<le> d" "d \<le> GregorianDate_monthlength y m"
      and y: "1 \<le> y"
  defines "c \<equiv> \<lparr>year = y, month = m, day = d, cached_jd = None\<rparr>"
  shows "JulianDay_to_greg (GregorianDate_jd c) =
         Inr (GregorianDate \<lparr>year = y, month = m, day = d, cached_jd = Some (GregorianDate_jd c)\<rparr>)"
proof -
  define Y where "Y = (if m < 3 then y - 1 else y)"
  define M where "M = (if m < 3 then m + 12 else m) + 1"
  define a where "a = Y div 100"
  define y2 where "y2 = Y mod 100"
  define q2 where "q2 = 1461 * y2 div 4"
  define doy where "doy = 306001 * M div 10000 - 122 + d - 1"
  define K where "K = 1461 * Y div 4 + 306001 * M div 10000 + (2 - a + a div 4) + d"
  define v where "v = GregorianDate_jd c"
  define L3 :: int where "L3 = (if m < 3 then 1 else 0)"
  have Y0: "0 \<le> Y" using y by (simp add: Y_def)
  have v: "v = of_int K + 3441989/2"
    unfolding v_def c_def K_def a_def Y_def M_def using GregorianDate_jd_AD [OF y m(1)] by simp
  have J: "py_int (v + 1/2) = K + 1720995"
  proof -
    have "v + 1/2 = of_int (K + 1720995)" by (simp add: v)
    then show ?thesis by (simp only: py_int_of_int)
  qed
  \<comment> \<open>the month and day part\<close>
  have dmax: "d \<le> (if m \<in> set [1, 3, 5, 7, 8, 10, 12] then 31 else if m = 2 then 29 else 30)"
    using d(2) monthlength_le [of y m] by linarith
  have "d \<le> 31" using dmax by (simp split: if_splits)
  note C = partC2' [OF m d(1) this dmax, folded M_def, folded doy_def L3_def]
  \<comment> \<open>the year inside its century\<close>
  have y2r: "0 \<le> y2" "y2 \<le> 99" unfolding y2_def by simp_all
  have Ysplit: "Y = 100 * a + y2" unfolding a_def y2_def by simp
  have leap: "y2 mod 4 = 3 \<and> (y2 = 99 \<longrightarrow> a mod 4 = 3)" if "doy = 365"
  proof -
    from that C(5) have md: "m = 2" "d = 29" by simp_all
    with d(2) have "GregorianDate_is_leap y"
      by (simp add: GregorianDate_monthlength_def split: if_splits)
    with y have lp: "y mod 4 = 0" "\<not> (y mod 100 = 0 \<and> y mod 400 \<noteq> 0)"
      by (simp_all add: GregorianDate_is_leap_def)
    have "((y - 1) mod 100) mod 4 = 3" using lp(1) by (rule leap1)
    moreover have "(y - 1) mod 100 = 99 \<longrightarrow> ((y - 1) div 100) mod 4 = 3"
      using leap2 [of y] lp(2) by blast
    ultimately have "((y - 1) mod 100) mod 4 = 3" "(y - 1) mod 100 = 99 \<longrightarrow> ((y - 1) div 100) mod 4 = 3" .
    with md(1) show ?thesis by (simp add: y2_def a_def Y_def)
  qed
  have B: "doy \<le> 364 \<or> (doy = 365 \<and> y2 mod 4 = 3)" using C(5) leap by blast
  have q2a: "4 * q2 \<le> 1461 * y2" unfolding q2_def using div_bounds(1) [of 4 "1461 * y2"] by simp
  have q2b: "0 \<le> q2" unfolding q2_def using y2r by simp
  have q2c: "q2 \<le> 36159" using q2a y2r(2) by linarith
  have L1s0: "0 \<le> q2 + doy" using q2b C(4) by simp
  define t where "t = a mod 4"
  have t0: "0 \<le> t" unfolding t_def by simp
  have L1s1': "4 * q2 + 4 * doy < t + 146094"
  proof (cases "doy \<le> 364")
    case True
    with t0 q2c show ?thesis by linarith
  next
    case False
    with C(5) have doy: "doy = 365" by simp
    show ?thesis
    proof (cases "y2 = 99")
      case True
      with leap [OF doy] have "t = 3" by (simp add: t_def)
      with q2c doy show ?thesis by linarith
    next
      case False
      with y2r have "y2 \<le> 98" by simp
      with t0 show ?thesis using q2a doy by linarith
    qed
  qed
  then have L1s1: "4 * (q2 + doy) < a mod 4 + 146094" by (simp add: t_def)
  have Kq: "1461 * Y div 4 = 36525 * a + q2"
  proof -
    have "1461 * Y = 1461 * y2 + 4 * (36525 * a)" using Ysplit by simp
    then show ?thesis unfolding q2_def by (simp only: div_mult_self2)
  qed
  have L: "K + 1720995 + 68569 = 36524 * a + a div 4 + (q2 + doy) + 1789689"
    unfolding K_def Kq doy_def by simp
  note A = partA_fwd [OF L1s0 L1s1, folded L]
  have i: "(4000 * (q2 + doy + 1)) div 1461001 = y2"
    unfolding q2_def using partB2 [OF y2r C(4) B] by simp
  have L2: "q2 + doy - (1461 * y2) div 4 + 31 = doy + 31" by (simp add: q2_def)
  have yy: "100 * (a + 49 - 49) + y2 + L3 = y"
    using Ysplit by (auto simp add: Y_def L3_def split: if_splits)
  have "JulianDay_to_greg v = GregorianDate_init (if y < 1 then y - 1 else y) m d (Some v)"
    by (rule to_greg_chain [OF J A(1) A(2) i L2 refl C(2) C(3) _ yy]) (use C(1) in \<open>simp only: C(3)\<close>)
  then show ?thesis
    using y m d by (simp add: GregorianDate_init_def v_def)
qed

lemma partC1:
  "\<forall>doy \<in> set [0..365].
     (let L = doy + 31; j = (80*L) div 2447; day = L - 2447*j div 80;
          L3 = j div 11; month = j + 2 - 12*L3
      in 1 \<le> month \<and> month \<le> 12 \<and> 1 \<le> day \<and>
         day \<le> (if month \<in> set [1, 3, 5, 7, 8, 10, 12] then 31
                 else if month = 2 then (if doy = 365 then 29 else 28) else 30) \<and>
         L3 = (if month \<le> 2 then 1 else 0))"
  by code_simp

lemma partC1':
  fixes doy :: int
  assumes "0 \<le> doy" "doy \<le> 365"
  defines "j \<equiv> (80 * (doy + 31)) div 2447"
  defines "dd \<equiv> doy + 31 - 2447 * j div 80"
  defines "mm \<equiv> j + 2 - 12 * (j div 11)"
  shows "1 \<le> mm" and "mm \<le> 12" and "1 \<le> dd"
    and "dd \<le> (if mm \<in> set [1, 3, 5, 7, 8, 10, 12] then 31
                 else if mm = 2 then (if doy = 365 then 29 else 28) else 30)"
    and "j div 11 = (if mm \<le> 2 then 1 else 0)"
proof -
  have "doy \<in> set [0..365]" using assms(1,2) by (simp only: set_upto atLeastAtMost_iff)
  with partC1 have
    "(let L = doy + 31; j = (80*L) div 2447; day = L - 2447*j div 80;
          L3 = j div 11; month = j + 2 - 12*L3
      in 1 \<le> month \<and> month \<le> 12 \<and> 1 \<le> day \<and>
         day \<le> (if month \<in> set [1, 3, 5, 7, 8, 10, 12] then 31
                 else if month = 2 then (if doy = 365 then 29 else 28) else 30) \<and>
         L3 = (if month \<le> 2 then 1 else 0))"
    by blast
  then have *: "1 \<le> mm \<and> mm \<le> 12 \<and> 1 \<le> dd \<and>
         dd \<le> (if mm \<in> set [1, 3, 5, 7, 8, 10, 12] then 31
                 else if mm = 2 then (if doy = 365 then 29 else 28) else 30) \<and>
         j div 11 = (if mm \<le> 2 then 1 else 0)"
    unfolding Let_def mm_def dd_def j_def .
  from * show "1 \<le> mm" by blast
  from * show "mm \<le> 12" by blast
  from * show "1 \<le> dd" by blast
  from * show "dd \<le> (if mm \<in> set [1, 3, 5, 7, 8, 10, 12] then 31
                 else if mm = 2 then (if doy = 365 then 29 else 28) else 30)" by blast
  from * show "j div 11 = (if mm \<le> 2 then 1 else 0)" by blast
qed

lemma mod_4_0: "(4 * k) mod 4 = (0::int)"
  by simp

lemma leap_from_fvf:
  fixes n i :: int
  assumes i: "0 \<le> i" "i \<le> 99" "i mod 4 = 3" and n: "i = 99 \<longrightarrow> n mod 4 = 0"
  defines "yy \<equiv> 100 * (n - 49) + i + 1"
  shows "yy mod 4 = 0 \<and> \<not> (yy mod 100 = 0 \<and> yy mod 400 \<noteq> 0)"
proof -
  define q where "q = i div 4"
  have iq: "i = 4 * q + 3" unfolding q_def using i(3) by (rule mod_eqD)
  have "yy = 4 * (25 * (n - 49) + q + 1)" unfolding yy_def using iq by simp
  then have "yy mod 4 = (4 * (25 * (n - 49) + q + 1)) mod 4" by (rule arg_cong)
  then have y4: "yy mod 4 = 0" by (simp only: mod_4_0)
  have "yy mod 400 = 0" if c: "yy mod 100 = 0"
  proof -
    define p where "p = yy div 100"
    have "yy = 100 * p + 0" unfolding p_def using c by (rule mod_eqD)
    then have "i + 1 = 100 * p - 100 * n + 4900" unfolding yy_def by (simp add: algebra_simps)
    then have "i + 1 = 100 * (p - n + 49)" by simp
    moreover have "0 < i + 1" "i + 1 \<le> 100" using i by simp_all
    ultimately have "0 < 100 * (p - n + 49)" "100 * (p - n + 49) \<le> 100" by simp_all
    then have "p - n + 49 = 1" by simp
    with \<open>i + 1 = 100 * (p - n + 49)\<close> have "i = 99" by simp
    with n have "n mod 4 = 0" by simp
    then have "n = 4 * (n div 4) + 0" by (rule mod_eqD)
    then obtain s where s: "n = 4 * s" by simp
    have "yy = 400 * (s - 12)" unfolding yy_def using \<open>i = 99\<close> s by simp
    then show ?thesis by simp
  qed
  with y4 show ?thesis by auto
qed

lemma is_leap_adjusted:
  "GregorianDate_is_leap (if yy < 1 then yy - 1 else yy) =
     (yy mod 4 = 0 \<and> \<not> (yy mod 100 = 0 \<and> yy mod 400 \<noteq> 0))"
  by (simp add: GregorianDate_is_leap_def)

lemma to_greg_total:
  "\<exists>c. JulianDay_to_greg (of_int k + 1/2) = Inr (GregorianDate c) \<and>
        cached_jd c = Some (of_int k + 1/2)"
proof -
  define v :: real where "v = of_int k + 1/2"
  define L where "L = k + 1 + 68569"
  define n where "n = 4 * L div 146097"
  define L1 where "L1 = L - (146097 * n + 3) div 4"
  define i where "i = (4000 * (L1 + 1)) div 1461001"
  define doy where "doy = L1 - (1461 * i) div 4"
  define j where "j = (80 * (doy + 31)) div 2447"
  define dd where "dd = doy + 31 - 2447 * j div 80"
  define mm where "mm = j + 2 - 12 * (j div 11)"
  define yy where "yy = 100 * (n - 49) + i + j div 11"
  define yy' where "yy' = (if yy < 1 then yy - 1 else yy)"
  have J: "py_int (v + 1/2) = k + 1"
  proof -
    have "v + 1/2 = of_int (k + 1)" by (simp add: v_def)
    then show ?thesis by (simp only: py_int_of_int)
  qed
  have A: "0 \<le> L1" "L1 \<le> 36524" "L1 = 36524 \<longrightarrow> n mod 4 = 0"
    unfolding L1_def n_def by (rule partA_range)+
  have B: "0 \<le> i" "i \<le> 99" "0 \<le> doy" "doy \<le> 365" "doy = 365 \<longrightarrow> i mod 4 = 3"
    unfolding doy_def i_def by (rule partB1 [OF A(1,2)])+
  note C = partC1' [OF B(3,4), folded j_def, folded dd_def mm_def]
  have unfold: "JulianDay_to_greg v = GregorianDate_init yy' mm dd (Some v)"
    unfolding yy'_def
    by (rule to_greg_chain [OF J n_def [symmetric, unfolded L_def] L1_def [symmetric, unfolded L_def]
          i_def [symmetric] _ j_def [symmetric] dd_def [symmetric] refl mm_def [symmetric]
          yy_def [symmetric]]) (simp add: doy_def)
  have len: "dd \<le> GregorianDate_monthlength yy' mm"
  proof (cases "mm = 2 \<and> doy = 365")
    case True
    then have j11: "j div 11 = 1" using C(5) by simp
    from True B(5) have i3: "i mod 4 = 3" by simp
    have "i = 99 \<longrightarrow> n mod 4 = 0"
    proof
      assume "i = 99"
      with True have "L1 = 36524" by (simp add: doy_def)
      with A(3) show "n mod 4 = 0" by simp
    qed
    from leap_from_fvf [OF B(1,2) i3 this]
    have "GregorianDate_is_leap yy'"
      unfolding yy'_def is_leap_adjusted yy_def j11 .
    with True C(4) show ?thesis by (simp add: GregorianDate_monthlength_def)
  next
    case False
    with C(4) show ?thesis by (auto simp add: GregorianDate_monthlength_def split: if_splits)
  qed
  with C(1,2,3) have "GregorianDate_init yy' mm dd (Some v) =
      Inr (GregorianDate \<lparr>year = yy', month = mm, day = dd, cached_jd = Some v\<rparr>)"
    by (simp add: GregorianDate_init_def)
  with unfold show ?thesis by (simp add: v_def)
qed

section \<open>Properties of the Hebrew conversions\<close>

lemma hebrew_months_simps:
  "hebrew_months U y =
     (if is_leap U y then [7, 8, 9, 10, 11, 12, 13, 1, 2, 3, 4, 5, 6]
      else [7, 8, 9, 10, 11, 12, 1, 2, 3, 4, 5, 6])"
  by (simp add: hebrew_months_def)

lemma distinct_hebrew_months: "distinct (hebrew_months U y)"
  by (simp add: hebrew_months_simps)

lemma set_hebrew_months:
  "m \<in> set (hebrew_months U y) \<longleftrightarrow> 1 \<le> m \<and> m \<le> 13 \<and> (m = 13 \<longrightarrow> is_leap U y)"
  by (auto simp add: hebrew_months_simps; presburger)

lemma HebrewDate_init_Inr_iff:
  "HebrewDate_init U y m d jd = Inr x \<longleftrightarrow>
     x = HebrewDate \<lparr>year = y, month = m, day = d, cached_jd = jd\<rparr> \<and>
     1 \<le> y \<and> m \<in> set (hebrew_months U y) \<and> 1 \<le> d \<and> d \<le> month_length U y m"
  by (auto simp add: HebrewDate_init_def set_hebrew_months Let_def)

lemma jd_loop_notin:
  "month self \<notin> set months \<Longrightarrow> HebrewDate_jd_loop U self months jd stored = stored"
  by (induction months arbitrary: jd) auto

lemma jd_loop_found:
  assumes "month self \<in> set months" "distinct months"
  shows "HebrewDate_jd_loop U self months jd stored =
         Some (of_int (jd + sum_list (map (month_length U (year self))
                                          (takeWhile (\<lambda>k. k \<noteq> month self) months))
                       + (day self - 1)) + 695993/2)"
  using assms
proof (induction months arbitrary: jd)
  case Nil
  then show ?case by simp
next
  case (Cons m months)
  show ?case
  proof (cases "m = month self")
    case True
    with Cons.prems have "month self \<notin> set months" by simp
    with True show ?thesis by (simp add: jd_loop_notin)
  next
    case False
    with Cons.prems have "month self \<in> set months" "distinct months" by auto
    from Cons.IH [OF this] False show ?thesis by (simp add: algebra_simps)
  qed
qed

lemma contractD:
  assumes "calendar_contract U"
  shows "elapsed_days U 1 = 1"
    and "1 \<le> y \<Longrightarrow> elapsed_days U (y + 1) =
           elapsed_days U y + sum_list (map (month_length U y) (hebrew_months U y))"
    and "1 \<le> y \<Longrightarrow> m \<in> set (hebrew_months U y) \<Longrightarrow> 1 \<le> month_length U y m"
    and "1 \<le> y \<Longrightarrow> 365 * (y - 2) < elapsed_days U y"
  using assms unfolding calendar_contract_def by blast+

lemma sum_list_nonneg_int:
  fixes f :: "int \<Rightarrow> int"
  assumes "\<And>x. x \<in> set xs \<Longrightarrow> 0 \<le> f x"
  shows "0 \<le> sum_list (map f xs)"
  using assms by (induction xs) auto

lemma elapsed_days_step:
  assumes "calendar_contract U" "1 \<le> y"
  shows "elapsed_days U y < elapsed_days U (y + 1)"
proof -
  have "7 \<in> set (hebrew_months U y)" by (simp add: set_hebrew_months)
  then obtain ys zs where split: "hebrew_months U y = ys @ 7 # zs"
    by (meson split_list)
  have pos: "\<And>m. m \<in> set (hebrew_months U y) \<Longrightarrow> 0 \<le> month_length U y m"
    using contractD(3) [OF assms] by force
  have "0 \<le> sum_list (map (month_length U y) ys)" "0 \<le> sum_list (map (month_length U y) zs)"
    using pos by (auto intro!: sum_list_nonneg_int simp: split)
  moreover have "1 \<le> month_length U y 7"
    using contractD(3) [OF assms] by (simp add: set_hebrew_months)
  ultimately have "1 \<le> sum_list (map (month_length U y) (hebrew_months U y))"
    by (simp add: split)
  with contractD(2) [OF assms] show ?thesis by simp
qed

lemma elapsed_days_mono:
  assumes "calendar_contract U" "1 \<le> y" "y \<le> z"
  shows "elapsed_days U y \<le> elapsed_days U z"
  using assms(3,2)
proof (induction z rule: int_ge_induct)
  case base
  then show ?case by simp
next
  case (step i)
  then have "1 \<le> i" by simp
  from elapsed_days_step [OF assms(1) this] step show ?case by simp
qed

lemma elapsed_days_ge_1:
  assumes "calendar_contract U" "1 \<le> y"
  shows "1 \<le> elapsed_days U y"
  using elapsed_days_mono [OF assms(1) _ assms(2)] contractD(1) [OF assms(1)] by simp

lemma to_heb_while_total:
  assumes "elapsed_days U 1 \<le> t" "1 \<le> y0"
  shows "\<exists>y. to_heb_while U t y0 (elapsed_days U y0) = Some (y, elapsed_days U y) \<and>
             1 \<le> y \<and> y \<le> y0 \<and> elapsed_days U y \<le> t \<and>
             (y < y0 \<longrightarrow> t < elapsed_days U (y + 1))"
  using assms(2)
proof (induction y0 rule: int_ge_induct)
  case base
  have "to_heb_while U t 1 (elapsed_days U 1) = Some (1, elapsed_days U 1)"
    using assms(1) by (subst to_heb_while.simps) simp
  with assms(1) show ?case by simp
next
  case (step i)
  show ?case
  proof (cases "elapsed_days U (i + 1) > t")
    case True
    from step.IH obtain y where y:
      "to_heb_while U t i (elapsed_days U i) = Some (y, elapsed_days U y)"
      "1 \<le> y" "y \<le> i" "elapsed_days U y \<le> t" "y < i \<longrightarrow> t < elapsed_days U (y + 1)"
      by blast
    have "to_heb_while U t (i + 1) (elapsed_days U (i + 1)) =
          to_heb_while U t i (elapsed_days U i)"
      using True by (subst to_heb_while.simps) simp
    moreover have "t < elapsed_days U (y + 1)"
    proof (cases "y < i")
      case True
      with y(5) show ?thesis by simp
    next
      case False
      with y(3) have "y = i" by simp
      with \<open>elapsed_days U (i + 1) > t\<close> show ?thesis by simp
    qed
    ultimately show ?thesis using y by auto
  next
    case False
    then have "to_heb_while U t (i + 1) (elapsed_days U (i + 1)) =
               Some (i + 1, elapsed_days U (i + 1))"
      by (subst to_heb_while.simps) simp
    with False step.hyps show ?thesis by auto
  qed
qed

lemma to_heb_year:
  assumes c: "calendar_contract U" and t: "1 \<le> t"
  shows "\<exists>y. to_heb_while U t (t div 365 + 2) (elapsed_days U (t div 365 + 2)) =
               Some (y, elapsed_days U y) \<and>
             1 \<le> y \<and> elapsed_days U y \<le> t \<and> t < elapsed_days U (y + 1)"
proof -
  define y0 where "y0 = t div 365 + 2"
  have "0 \<le> t div 365" using t by (simp add: pos_imp_zdiv_nonneg_iff)
  then have y0: "1 \<le> y0" by (simp add: y0_def)
  have E1: "elapsed_days U 1 \<le> t" using contractD(1) [OF c] t by simp
  from to_heb_while_total [OF E1 y0] obtain y where y:
    "to_heb_while U t y0 (elapsed_days U y0) = Some (y, elapsed_days U y)"
    "1 \<le> y" "y \<le> y0" "elapsed_days U y \<le> t" "y < y0 \<longrightarrow> t < elapsed_days U (y + 1)"
    by blast
  have "t < elapsed_days U (y + 1)"
  proof (cases "y < y0")
    case True
    with y(5) show ?thesis by simp
  next
    case False
    with y(3) have "y = y0" by simp
    have "1 \<le> y0 + 1" using y0 by simp
    from contractD(4) [OF c this] have "365 * (y0 - 1) < elapsed_days U (y0 + 1)" by simp
    moreover have "t < 365 * (t div 365) + 365"
      using div_bounds(2) [of 365 t] by simp
    ultimately show ?thesis using \<open>y = y0\<close> by (simp add: y0_def)
  qed
  with y show ?thesis unfolding y0_def by blast
qed

lemma to_heb_for_total:
  assumes "1 \<le> y" "0 \<le> dr" "dr < sum_list (map (month_length U y) ms)"
      and "set ms \<subseteq> set (hebrew_months U y)"
  shows "\<exists>m d. to_heb_for U y ms dr v =
                 Inr (Some (HebrewDate \<lparr>year = y, month = m, day = d, cached_jd = Some v\<rparr>)) \<and>
               m \<in> set ms \<and> 1 \<le> d \<and> d \<le> month_length U y m"
  using assms(2-4)
proof (induction ms arbitrary: dr)
  case Nil
  then show ?case by simp
next
  case (Cons m ms)
  show ?case
  proof (cases "dr \<ge> month_length U y m")
    case True
    with Cons.prems have "0 \<le> dr - month_length U y m"
      "dr - month_length U y m < sum_list (map (month_length U y) ms)"
      "set ms \<subseteq> set (hebrew_months U y)" by auto
    from Cons.IH [OF this] True show ?thesis by auto
  next
    case False
    have "m \<in> set (hebrew_months U y)" using Cons.prems(3) by simp
    with False Cons.prems(1) assms(1)
    have "HebrewDate_init U y m (dr + 1) (Some v) =
          Inr (HebrewDate \<lparr>year = y, month = m, day = dr + 1, cached_jd = Some v\<rparr>)"
      by (simp add: HebrewDate_init_Inr_iff)
    with False Cons.prems(1) show ?thesis by auto
  qed
qed

lemma to_heb_for_exact:
  assumes "1 \<le> y" "1 \<le> d" "d \<le> month_length U y m0" "m0 \<in> set ms"
      and "set ms \<subseteq> set (hebrew_months U y)"
      and "\<And>m. m \<in> set ms \<Longrightarrow> 0 \<le> month_length U y m"
  shows "to_heb_for U y ms
           (sum_list (map (month_length U y) (takeWhile (\<lambda>k. k \<noteq> m0) ms)) + d - 1) v =
         Inr (Some (HebrewDate \<lparr>year = y, month = m0, day = d, cached_jd = Some v\<rparr>))"
  using assms(4-6)
proof (induction ms)
  case Nil
  then show ?case by simp
next
  case (Cons m ms)
  show ?case
  proof (cases "m = m0")
    case True
    have "m0 \<in> set (hebrew_months U y)" using Cons.prems(2) True by simp
    with assms(1-3)
    have "HebrewDate_init U y m0 d (Some v) =
          Inr (HebrewDate \<lparr>year = y, month = m0, day = d, cached_jd = Some v\<rparr>)"
      by (simp add: HebrewDate_init_Inr_iff)
    with True assms(3) show ?thesis by simp
  next
    case False
    with Cons.prems have p: "m0 \<in> set ms" "set ms \<subseteq> set (hebrew_months U y)"
      "\<And>k. k \<in> set ms \<Longrightarrow> 0 \<le> month_length U y k" by auto
    have "0 \<le> sum_list (map (month_length U y) (takeWhile (\<lambda>k. k \<noteq> m0) ms))"
      using p(3) by (intro sum_list_nonneg_int) (auto dest: set_takeWhileD)
    with False assms(2) Cons.IH [OF p] show ?thesis by (simp add: algebra_simps)
  qed
qed

lemma sum_before_lt_total:
  fixes f :: "int \<Rightarrow> int"
  assumes "m0 \<in> set ms" "\<And>m. m \<in> set ms \<Longrightarrow> 0 \<le> f m"
  shows "sum_list (map f (takeWhile (\<lambda>k. k \<noteq> m0) ms)) + f m0 \<le> sum_list (map f ms)"
  using assms
proof (induction ms)
  case Nil
  then show ?case by simp
next
  case (Cons m ms)
  show ?case
  proof (cases "m = m0")
    case True
    have "0 \<le> sum_list (map f ms)" using Cons.prems(2) by (intro sum_list_nonneg_int) auto
    with True show ?thesis by simp
  next
    case False
    with Cons.prems have "m0 \<in> set ms" "\<And>k. k \<in> set ms \<Longrightarrow> 0 \<le> f k" by auto
    from Cons.IH [OF this] False show ?thesis by simp
  qed
qed

lemma to_heb_unfold:
  assumes "347997 \<le> k"
  shows "JulianDay_to_heb U (of_int k + 1/2) =
     (case to_heb_while U (k - 347996) ((k - 347996) div 365 + 2)
             (elapsed_days U ((k - 347996) div 365 + 2)) of
        None \<Rightarrow> None
      | Some (y, first_day) \<Rightarrow>
          Some (to_heb_for U y (hebrew_months U y) (k - 347996 - first_day) (of_int k + 1/2)))"
proof -
  have "\<not> (of_int k + 1/2 :: real) \<le> 347997" using assms by linarith
  moreover have "(of_int k + 1/2 + 1/2 :: real) = of_int (k + 1)" by simp
  then have "py_int (of_int k + 1/2 + 1/2) = k + 1" by (simp only: py_int_of_int)
  moreover have "k + 1 - 347997 = k - 347996" by simp
  ultimately show ?thesis unfolding JulianDay_to_heb_def Let_def by (simp only: if_False)
qed

lemma to_heb_total:
  assumes c: "calendar_contract U" and k: "347997 \<le> k"
  shows "\<exists>h. JulianDay_to_heb U (of_int k + 1/2) = Some (Inr (Some (HebrewDate h))) \<and>
             cached_jd h = Some (of_int k + 1/2) \<and>
             HebrewDate_init U (year h) (month h) (day h) (cached_jd h) = Inr (HebrewDate h)"
proof -
  define t where "t = k - 347996"
  define v :: real where "v = of_int k + 1/2"
  have t: "1 \<le> t" using k by (simp add: t_def)
  from to_heb_year [OF c t] obtain y where y:
    "to_heb_while U t (t div 365 + 2) (elapsed_days U (t div 365 + 2)) = Some (y, elapsed_days U y)"
    "1 \<le> y" "elapsed_days U y \<le> t" "t < elapsed_days U (y + 1)" by blast
  have u: "JulianDay_to_heb U v =
           Some (to_heb_for U y (hebrew_months U y) (t - elapsed_days U y) v)"
    unfolding v_def to_heb_unfold [OF k] t_def [symmetric] y(1) by simp
  have "t - elapsed_days U y < sum_list (map (month_length U y) (hebrew_months U y))"
    using y(4) contractD(2) [OF c y(2)] by simp
  moreover have "0 \<le> t - elapsed_days U y" using y(3) by simp
  ultimately obtain m d where md:
    "to_heb_for U y (hebrew_months U y) (t - elapsed_days U y) v =
       Inr (Some (HebrewDate \<lparr>year = y, month = m, day = d, cached_jd = Some v\<rparr>))"
    "m \<in> set (hebrew_months U y)" "1 \<le> d" "d \<le> month_length U y m"
    using to_heb_for_total [OF y(2), of "t - elapsed_days U y" U "hebrew_months U y" v] by auto
  have "HebrewDate_init U y m d (Some v) =
        Inr (HebrewDate \<lparr>year = y, month = m, day = d, cached_jd = Some v\<rparr>)"
    using y(2) md(2-4) by (simp add: HebrewDate_init_Inr_iff)
  with u md(1) show ?thesis unfolding v_def [symmetric] by auto
qed

lemma HebrewDate_jd_value:
  assumes "1 \<le> y" "m \<in> set (hebrew_months U y)"
  shows "HebrewDate_jd U \<lparr>year = y, month = m, day = d, cached_jd = None\<rparr> =
         Some (of_int (elapsed_days U y
                 + sum_list (map (month_length U y) (takeWhile (\<lambda>k. k \<noteq> m) (hebrew_months U y)))
                 + (d - 1) + 347996) + 1/2)"
proof -
  define self where "self = \<lparr>year = y, month = m, day = d, cached_jd = None\<rparr>"
  have "month self \<in> set (hebrew_months U (year self))" using assms(2) by (simp add: self_def)
  from jd_loop_found [OF this distinct_hebrew_months, of U "elapsed_days U (year self)" None]
  show ?thesis unfolding HebrewDate_jd_def self_def [symmetric]
    by (simp add: self_def)
qed

lemma year_unique:
  assumes c: "calendar_contract U" and y: "1 \<le> y" "1 \<le> z"
      and "elapsed_days U y \<le> t" "t < elapsed_days U (y + 1)"
      and "elapsed_days U z \<le> t" "t < elapsed_days U (z + 1)"
  shows "y = z"
proof (rule ccontr)
  assume "y \<noteq> z"
  then consider "y + 1 \<le> z" | "z + 1 \<le> y" by linarith
  then show False
  proof cases
    case 1
    have "1 \<le> y + 1" using y by simp
    from elapsed_days_mono [OF c this 1] assms show False by simp
  next
    case 2
    have "1 \<le> z + 1" using y by simp
    from elapsed_days_mono [OF c this 2] assms show False by simp
  qed
qed

lemma hebrew_roundtrip:
  assumes c: "calendar_contract U" and y: "1 \<le> y" and m: "m \<in> set (hebrew_months U y)"
      and d: "1 \<le> d" "d \<le> month_length U y m"
  defines "self \<equiv> \<lparr>year = y, month = m, day = d, cached_jd = None\<rparr>"
  shows "\<exists>v. HebrewDate_jd U self = Some v \<and> JulianDay_init v = v \<and> 347997 < v \<and>
             JulianDay_to_heb U v =
               Some (Inr (Some (HebrewDate \<lparr>year = y, month = m, day = d, cached_jd = Some v\<rparr>)))"
proof -
  define before where
    "before = sum_list (map (month_length U y) (takeWhile (\<lambda>k. k \<noteq> m) (hebrew_months U y)))"
  define t where "t = elapsed_days U y + before + (d - 1)"
  define k where "k = t + 347996"
  define v :: real where "v = of_int k + 1/2"
  have nonneg: "\<And>j. j \<in> set (hebrew_months U y) \<Longrightarrow> 0 \<le> month_length U y j"
    using contractD(3) [OF c y] by force
  have b0: "0 \<le> before" unfolding before_def
    using nonneg by (intro sum_list_nonneg_int) (auto dest: set_takeWhileD)
  have jd: "HebrewDate_jd U self = Some v"
    unfolding self_def v_def k_def t_def before_def using HebrewDate_jd_value [OF y m] by simp
  have E: "1 \<le> elapsed_days U y" by (rule elapsed_days_ge_1 [OF c y])
  have t1: "1 \<le> t" using E b0 d(1) by (simp add: t_def)
  then have k: "347997 \<le> k" by (simp add: k_def)
  then have big: "347997 < v" unfolding v_def by linarith
  have lo: "elapsed_days U y \<le> t" using b0 d(1) by (simp add: t_def)
  have "before + month_length U y m \<le> sum_list (map (month_length U y) (hebrew_months U y))"
    unfolding before_def using m nonneg by (intro sum_before_lt_total) auto
  then have hi: "t < elapsed_days U (y + 1)"
    using contractD(2) [OF c y] d(2) by (simp add: t_def)
  from to_heb_year [OF c t1] obtain z where z:
    "to_heb_while U t (t div 365 + 2) (elapsed_days U (t div 365 + 2)) = Some (z, elapsed_days U z)"
    "1 \<le> z" "elapsed_days U z \<le> t" "t < elapsed_days U (z + 1)" by blast
  have zy: "z = y" by (rule year_unique [OF c z(2) y z(3,4) lo hi])
  have tk: "k - 347996 = t" by (simp add: k_def)
  have "JulianDay_to_heb U v =
        Some (to_heb_for U y (hebrew_months U y) (t - elapsed_days U y) v)"
    unfolding v_def to_heb_unfold [OF k] tk z(1) zy by simp
  moreover have "t - elapsed_days U y = before + d - 1" by (simp add: t_def)
  moreover have "to_heb_for U y (hebrew_months U y) (before + d - 1) v =
      Inr (Some (HebrewDate \<lparr>year = y, month = m, day = d, cached_jd = Some v\<rparr>))"
    unfolding before_def using to_heb_for_exact [OF y d m subset_refl nonneg] by simp
  ultimately have "JulianDay_to_heb U v =
      Some (Inr (Some (HebrewDate \<lparr>year = y, month = m, day = d, cached_jd = Some v\<rparr>)))"
    by simp
  moreover have "JulianDay_init v = v" unfolding v_def by (rule JulianDay_init_half)
  ultimately show ?thesis using jd big by blast
qed

section \<open>The claims\<close>

lemma GregorianDate_init_Inr_iff:
  "GregorianDate_init y m d jd = Inr x \<longleftrightarrow>
     x = GregorianDate \<lparr>year = y, month = m, day = d, cached_jd = jd\<rparr> \<and>
     1 \<le> m \<and> m \<le> 12 \<and> 1 \<le> d \<and> d \<le> GregorianDate_monthlength y m"
  by (auto simp add: GregorianDate_init_def Let_def)

lemma GregorianDate_jd_half:
  assumes "cached_jd self = None"
  shows "\<exists>k. GregorianDate_jd self = of_int k + 1/2"
proof -
  have *: "\<exists>k. real_of_int z + 3441989/2 = of_int k + 1/2" for z :: int
  proof -
    have "real_of_int z + 3441989/2 = of_int (z + 1720994) + 1/2" by simp
    then show ?thesis by blast
  qed
  show ?thesis
    unfolding GregorianDate_jd_def Let_def assms option.case split_def by (rule *)
qed

lemma monthLength_spec_eq:
  "1 \<le> m \<Longrightarrow> m \<le> 12 \<Longrightarrow> monthLength_spec y m = GregorianDate_monthlength y m"
  unfolding monthLength_spec_def GregorianDate_monthlength_def isLeapYear_spec_def
    GregorianDate_is_leap_def Let_def
  by (auto; presburger)

lemma example_utils_contract: "calendar_contract example_utils"
  by (simp add: calendar_contract_def example_utils_def hebrew_months_def)

text \<open>
  C1 (as stated it fails): the Gregorian date 1 January of year \<open>-1\<close> is valid, its
  Julian day is \<open>1721060.5\<close>, and \<open>to_greg\<close> of that day is 2 January of year \<open>-1\<close>.
\<close>

theorem C1_bce_counterexample:
  "GregorianDate_init (-1) 1 1 None =
     Inr (GregorianDate \<lparr>year = -1, month = 1, day = 1, cached_jd = None\<rparr>) \<and>
   GregorianDate_to_jd \<lparr>year = -1, month = 1, day = 1, cached_jd = None\<rparr> =
     JulianDay (3442121/2) \<and>
   JulianDay_to_greg (3442121/2) =
     Inr (GregorianDate \<lparr>year = -1, month = 1, day = 2, cached_jd = Some (3442121/2)\<rparr>)"
proof -
  have a: "GregorianDate_init (-1) 1 1 None =
     Inr (GregorianDate \<lparr>year = -1, month = 1, day = 1, cached_jd = None\<rparr>)"
    by (simp add: GregorianDate_init_def GregorianDate_monthlength_def)
  have b: "GregorianDate_jd \<lparr>year = -1, month = 1, day = 1, cached_jd = None\<rparr> = 3442121/2"
    by (simp add: GregorianDate_jd_def py_int_def)
  have c: "JulianDay_init (3442121/2) = 3442121/2"
    by (simp add: JulianDay_init_def py_int_def)
  have d: "py_int (3442121/2 + 1/2) = 1721061"
    by (simp add: py_int_def)
  have e: "JulianDay_to_greg (3442121/2) = GregorianDate_init (-1) 1 2 (Some (3442121/2))"
    using to_greg_chain [OF d refl refl refl refl refl refl refl refl refl] by simp
  have f: "GregorianDate_init (-1) 1 2 (Some (3442121/2)) =
     Inr (GregorianDate \<lparr>year = -1, month = 1, day = 2, cached_jd = Some (3442121/2)\<rparr>)"
    by (simp add: GregorianDate_init_def GregorianDate_monthlength_def)
  show ?thesis unfolding GregorianDate_to_jd_def a b c e f by simp
qed

text \<open>
  C1 (amended): for every valid Gregorian triple \<open>(year, month, day)\<close> with \<open>year\<close> in
  \<open>[1, 9999]\<close>, converting the date to its Julian Day (\<open>GregorianDate.jd\<close>, which
  \<open>to_jd\<close> wraps unchanged in a \<open>JulianDay\<close>) and converting that Julian Day back with
  \<open>JulianDay.to_greg\<close> yields exactly the original \<open>(year, month, day)\<close>.
\<close>

theorem C1_gregorian_roundtrip:
  assumes "GregorianDate_init y m d None = Inr (GregorianDate self)"
      and "1 \<le> y" "y \<le> 9999"
  shows "GregorianDate_to_jd self = JulianDay (GregorianDate_jd self) \<and>
         JulianDay_to_greg (GregorianDate_jd self) =
           Inr (GregorianDate \<lparr>year = y, month = m, day = d,
                               cached_jd = Some (GregorianDate_jd self)\<rparr>)"
proof -
  from assms(1) have self: "self = \<lparr>year = y, month = m, day = d, cached_jd = None\<rparr>"
    and v: "1 \<le> m" "m \<le> 12" "1 \<le> d" "d \<le> GregorianDate_monthlength y m"
    by (simp_all add: GregorianDate_init_Inr_iff)
  have "cached_jd self = None" by (simp add: self)
  from GregorianDate_jd_half [OF this] obtain k where "GregorianDate_jd self = of_int k + 1/2" ..
  then have "JulianDay_init (GregorianDate_jd self) = GregorianDate_jd self"
    by (simp only: JulianDay_init_half)
  then have "GregorianDate_to_jd self = JulianDay (GregorianDate_jd self)"
    by (simp add: GregorianDate_to_jd_def)
  moreover note greg_roundtrip [OF v assms(2), folded self]
  ultimately show ?thesis by simp
qed

theorem C1_gregorian_roundtrip_witness:
  "GregorianDate_init 2020 12 11 None =
     Inr (GregorianDate \<lparr>year = 2020, month = 12, day = 11, cached_jd = None\<rparr>) \<and>
   GregorianDate_jd \<lparr>year = 2020, month = 12, day = 11, cached_jd = None\<rparr> = 4918389/2 \<and>
   JulianDay_to_greg (4918389/2) =
     Inr (GregorianDate \<lparr>year = 2020, month = 12, day = 11, cached_jd = Some (4918389/2)\<rparr>)"
proof -
  have i: "GregorianDate_init 2020 12 11 None =
     Inr (GregorianDate \<lparr>year = 2020, month = 12, day = 11, cached_jd = None\<rparr>)"
    by (simp add: GregorianDate_init_def GregorianDate_monthlength_def)
  have j: "GregorianDate_jd \<lparr>year = 2020, month = 12, day = 11, cached_jd = None\<rparr> = 4918389/2"
    by (simp add: GregorianDate_jd_def py_int_def)
  from C1_gregorian_roundtrip [OF i] i j show ?thesis by simp
qed

text \<open>
  C2: with the calendar helpers meeting their contract, for every valid Hebrew triple
  \<open>(year, month, day)\<close> with \<open>year\<close> in \<open>[1, 6000]\<close>, the Julian Day of the date
  (\<open>HebrewDate.jd\<close>) is a canonical day after the epoch, so \<open>to_jd\<close> wraps it unchanged,
  and \<open>JulianDay.to_heb\<close> of it returns exactly the original \<open>(year, month, day)\<close>.
\<close>

theorem C2_hebrew_roundtrip:
  assumes "calendar_contract U"
      and "HebrewDate_init U y m d None = Inr (HebrewDate self)"
      and "1 \<le> y" "y \<le> 6000"
  shows "\<exists>v. HebrewDate_jd U self = Some v \<and>
             HebrewDate_to_jd U self = Inr (JulianDay v) \<and>
             JulianDay_to_heb U v =
               Some (Inr (Some (HebrewDate \<lparr>year = y, month = m, day = d, cached_jd = Some v\<rparr>)))"
proof -
  from assms(2) have self: "self = \<lparr>year = y, month = m, day = d, cached_jd = None\<rparr>"
    and v: "m \<in> set (hebrew_months U y)" "1 \<le> d" "d \<le> month_length U y m"
    by (simp_all add: HebrewDate_init_Inr_iff)
  from hebrew_roundtrip [OF assms(1,3) v, folded self] obtain v where
    "HebrewDate_jd U self = Some v" "JulianDay_init v = v"
    "JulianDay_to_heb U v =
       Some (Inr (Some (HebrewDate \<lparr>year = y, month = m, day = d, cached_jd = Some v\<rparr>)))"
    by blast
  then show ?thesis by (auto simp add: HebrewDate_to_jd_def)
qed

theorem C2_hebrew_roundtrip_witness:
  "calendar_contract example_utils \<and>
   HebrewDate_init example_utils 5781 9 25 None =
     Inr (HebrewDate \<lparr>year = 5781, month = 9, day = 25, cached_jd = None\<rparr>) \<and>
   (\<exists>v. HebrewDate_jd example_utils \<lparr>year = 5781, month = 9, day = 25, cached_jd = None\<rparr> = Some v \<and>
        JulianDay_to_heb example_utils v =
          Some (Inr (Some (HebrewDate \<lparr>year = 5781, month = 9, day = 25, cached_jd = Some v\<rparr>))))"
proof -
  have i: "HebrewDate_init example_utils 5781 9 25 None =
     Inr (HebrewDate \<lparr>year = 5781, month = 9, day = 25, cached_jd = None\<rparr>)"
    by (simp add: HebrewDate_init_def example_utils_def)
  from C2_hebrew_roundtrip [OF example_utils_contract i] i example_utils_contract
  show ?thesis by auto
qed

text \<open>
  C4: for a \<open>JulianDay\<close> (whose day is canonical), \<open>to_heb\<close> raises the error
  "Date is before creation" exactly when the day precedes \<open>347997\<close>; with the calendar
  helpers meeting their contract, for every day not preceding \<open>347997\<close> the
  conversion returns a Hebrew date that passes the validation of its constructor.
\<close>

theorem C4_hebrew_epoch:
  assumes "calendar_contract U" and "canonical v"
  shows "(v < 347997 \<longrightarrow> JulianDay_to_heb U v = Some (Inl BeforeCreation)) \<and>
         (\<not> v < 347997 \<longrightarrow>
            (\<exists>h. JulianDay_to_heb U v = Some (Inr (Some (HebrewDate h))) \<and>
                 HebrewDate_init U (year h) (month h) (day h) (cached_jd h) = Inr (HebrewDate h)))"
proof (intro conjI impI)
  assume "v < 347997"
  then show "JulianDay_to_heb U v = Some (Inl BeforeCreation)"
    by (simp add: JulianDay_to_heb_def)
next
  assume a: "\<not> v < 347997"
  from canonicalE [OF assms(2)] obtain k where k: "v = of_int k + 1/2" ..
  with a have "347997 \<le> k" by linarith
  from to_heb_total [OF assms(1) this] k
  show "\<exists>h. JulianDay_to_heb U v = Some (Inr (Some (HebrewDate h))) \<and>
            HebrewDate_init U (year h) (month h) (day h) (cached_jd h) = Inr (HebrewDate h)"
    by auto
qed

theorem C4_hebrew_epoch_witness:
  "calendar_contract example_utils \<and> canonical (695993/2) \<and> canonical (695995/2) \<and>
   JulianDay_to_heb example_utils (695993/2) = Some (Inl BeforeCreation) \<and>
   (\<exists>h. JulianDay_to_heb example_utils (695995/2) = Some (Inr (Some (HebrewDate h))))"
proof -
  have a: "canonical (695993/2)" and b: "canonical (695995/2)"
    by (simp_all add: canonical_def JulianDay_init_def py_int_def)
  from C4_hebrew_epoch [OF example_utils_contract a] C4_hebrew_epoch [OF example_utils_contract b]
    a b example_utils_contract
  show ?thesis by auto
qed

text \<open>
  C6: constructing a \<open>GregorianDate\<close> fails exactly when the month is outside \<open>1..12\<close> or
  the day is outside \<open>1..monthLength(year, month)\<close>; constructing a \<open>HebrewDate\<close> fails
  exactly when \<open>year < 1\<close>, the month is outside \<open>1..13\<close>, the month is \<open>13\<close> in a non-leap
  year, or the day is outside \<open>1..monthLength(year, month)\<close>. A failure is an error and
  no date; otherwise the constructor returns the date with the given fields.
\<close>

theorem C6_construction_validation:
  "((\<exists>e. GregorianDate_init y m d jd = Inl e) \<longleftrightarrow>
      (m < 1 \<or> 12 < m \<or> d < 1 \<or> monthLength_spec y m < d)) \<and>
   ((\<forall>e. GregorianDate_init y m d jd \<noteq> Inl e) \<longleftrightarrow>
      GregorianDate_init y m d jd =
        Inr (GregorianDate \<lparr>year = y, month = m, day = d, cached_jd = jd\<rparr>)) \<and>
   ((\<exists>e. HebrewDate_init U y2 m2 d2 jd = Inl e) \<longleftrightarrow>
      (y2 < 1 \<or> m2 < 1 \<or> 13 < m2 \<or> (m2 = 13 \<and> \<not> is_leap U y2) \<or>
       d2 < 1 \<or> month_length U y2 m2 < d2)) \<and>
   ((\<forall>e. HebrewDate_init U y2 m2 d2 jd \<noteq> Inl e) \<longleftrightarrow>
      HebrewDate_init U y2 m2 d2 jd =
        Inr (HebrewDate \<lparr>year = y2, month = m2, day = d2, cached_jd = jd\<rparr>))"
proof (intro conjI)
  show "(\<exists>e. GregorianDate_init y m d jd = Inl e) \<longleftrightarrow>
        (m < 1 \<or> 12 < m \<or> d < 1 \<or> monthLength_spec y m < d)"
  proof (cases "1 \<le> m \<and> m \<le> 12")
    case True
    then have "monthLength_spec y m = GregorianDate_monthlength y m"
      by (simp add: monthLength_spec_eq)
    with True show ?thesis by (auto simp add: GregorianDate_init_def Let_def)
  next
    case False
    then show ?thesis by (auto simp add: GregorianDate_init_def)
  qed
  show "(\<forall>e. GregorianDate_init y m d jd \<noteq> Inl e) \<longleftrightarrow>
        GregorianDate_init y m d jd =
          Inr (GregorianDate \<lparr>year = y, month = m, day = d, cached_jd = jd\<rparr>)"
    by (auto simp add: GregorianDate_init_def Let_def)
  show "(\<exists>e. HebrewDate_init U y2 m2 d2 jd = Inl e) \<longleftrightarrow>
        (y2 < 1 \<or> m2 < 1 \<or> 13 < m2 \<or> (m2 = 13 \<and> \<not> is_leap U y2) \<or>
         d2 < 1 \<or> month_length U y2 m2 < d2)"
    by (auto simp add: HebrewDate_init_def Let_def)
  show "(\<forall>e. HebrewDate_init U y2 m2 d2 jd \<noteq> Inl e) \<longleftrightarrow>
        HebrewDate_init U y2 m2 d2 jd =
          Inr (HebrewDate \<lparr>year = y2, month = m2, day = d2, cached_jd = jd\<rparr>)"
    by (auto simp add: HebrewDate_init_def Let_def)
qed

theorem C6_construction_validation_witness:
  "GregorianDate_init 2000 2 29 None =
     Inr (GregorianDate \<lparr>year = 2000, month = 2, day = 29, cached_jd = None\<rparr>) \<and>
   (\<exists>e. GregorianDate_init 1900 2 29 None = Inl e) \<and>
   (\<exists>e. HebrewDate_init example_utils 5781 13 1 None = Inl e)"
proof -
  have a: "\<not> ((2::int) < 1 \<or> (12::int) < 2 \<or> (29::int) < 1 \<or> monthLength_spec 2000 2 < 29)"
    by (simp add: monthLength_spec_def isLeapYear_spec_def)
  have b: "monthLength_spec 1900 2 < 29"
    by (simp add: monthLength_spec_def isLeapYear_spec_def)
  have c: "\<not> is_leap example_utils 5781" by (simp add: example_utils_def)
  from C6_construction_validation [of 2000 2 29 None example_utils 5781 13 1]
    C6_construction_validation [of 1900 2 29 None example_utils 5781 13 1] a b c
  show ?thesis by auto
qed

text \<open>
  C10: in \<open>hebrew_month\<close> of \<open>main.py\<close>, a Hebrew date whose month is in \<open>1..10\<close> gets its
  transliterated month name; for month \<open>11\<close>, \<open>12\<close> or \<open>13\<close> the function compares the
  date object itself with the integer, the comparison does not hold, and the function
  returns \<open>None\<close>.
\<close>

theorem C10_hebrew_month_late_months:
  "(month h = 1 \<longrightarrow> hebrew_month U h = Inr (Some ''Nisan'')) \<and>
   (month h = 2 \<longrightarrow> hebrew_month U h = Inr (Some ''Iyyar'')) \<and>
   (month h = 3 \<longrightarrow> hebrew_month U h = Inr (Some ''Sivan'')) \<and>
   (month h = 4 \<longrightarrow> hebrew_month U h = Inr (Some ''Tammuz'')) \<and>
   (month h = 5 \<longrightarrow> hebrew_month U h = Inr (Some ''Av'')) \<and>
   (month h = 6 \<longrightarrow> hebrew_month U h = Inr (Some ''Elul'')) \<and>
   (month h = 7 \<longrightarrow> hebrew_month U h = Inr (Some ''Tishri'')) \<and>
   (month h = 8 \<longrightarrow> hebrew_month U h = Inr (Some ''Heshvan'')) \<and>
   (month h = 9 \<longrightarrow> hebrew_month U h = Inr (Some ''Kislev'')) \<and>
   (month h = 10 \<longrightarrow> hebrew_month U h = Inr (Some ''Teveth'')) \<and>
   (month h \<in> {11, 12, 13} \<longrightarrow>
      BaseDate_eq U (HebrewDate h) (Number (month h)) = None \<and>
      \<not> py_eq U (HebrewDate h) (Number (month h)) \<and>
      hebrew_month U h = Inr None)"
  by (auto simp add: hebrew_month_def py_eq_def)

theorem C10_hebrew_month_late_months_witness:
  "hebrew_month example_utils \<lparr>year = 5781, month = 9, day = 25, cached_jd = None\<rparr> =
     Inr (Some ''Kislev'') \<and>
   hebrew_month example_utils \<lparr>year = 5781, month = 11, day = 1, cached_jd = None\<rparr> = Inr None \<and>
   hebrew_month example_utils \<lparr>year = 5781, month = 12, day = 1, cached_jd = None\<rparr> = Inr None"
  using C10_hebrew_month_late_months
          [of "\<lparr>year = 5781, month = 9, day = 25, cached_jd = None\<rparr>" example_utils]
        C10_hebrew_month_late_months
          [of "\<lparr>year = 5781, month = 11, day = 1, cached_jd = None\<rparr>" example_utils]
        C10_hebrew_month_late_months
          [of "\<lparr>year = 5781, month = 12, day = 1, cached_jd = None\<rparr>" example_utils]
  by simp

section \<open>Properties of the date algebra\<close>

lemma to_greg_valid:
  assumes "JulianDay_to_greg v = Inr x"
  shows "\<exists>c. x = GregorianDate c \<and> cached_jd c = Some v \<and>
             GregorianDate_init (year c) (month c) (day c) (cached_jd c) = Inr (GregorianDate c)"
proof -
  from assms obtain yy mm dd where "GregorianDate_init yy mm dd (Some v) = Inr x"
    unfolding JulianDay_to_greg_def Let_def by blast
  then show ?thesis by (auto simp add: GregorianDate_init_Inr_iff)
qed

lemma to_greg_total_valid:
  "\<exists>c. JulianDay_to_greg (of_int k + 1/2) = Inr (GregorianDate c) \<and>
       valid_date U (GregorianDate c) \<and>
       BaseDate_jd U (GregorianDate c) = Some (of_int k + 1/2)"
proof -
  from to_greg_total [of k] obtain c where
    c: "JulianDay_to_greg (of_int k + 1/2) = Inr (GregorianDate c)"
       "cached_jd c = Some (of_int k + 1/2)" by blast
  from to_greg_valid [OF c(1)]
  have "GregorianDate_init (year c) (month c) (day c) (cached_jd c) = Inr (GregorianDate c)"
    by auto
  with c show ?thesis by (auto simp add: GregorianDate_jd_def canonical_half)
qed

lemma to_heb_total_valid:
  assumes "calendar_contract U" "347997 \<le> k"
  shows "\<exists>h. JulianDay_to_heb U (of_int k + 1/2) = Some (Inr (Some (HebrewDate h))) \<and>
       valid_date U (HebrewDate h) \<and>
       BaseDate_jd U (HebrewDate h) = Some (of_int k + 1/2)"
proof -
  from to_heb_total [OF assms] obtain h where
    h: "JulianDay_to_heb U (of_int k + 1/2) = Some (Inr (Some (HebrewDate h)))"
       "cached_jd h = Some (of_int k + 1/2)"
       "HebrewDate_init U (year h) (month h) (day h) (cached_jd h) = Inr (HebrewDate h)"
    by blast
  have "(347997::real) < of_int k + 1/2" using assms(2) by linarith
  with h show ?thesis by (auto simp add: HebrewDate_jd_def canonical_half)
qed

text \<open>The Julian Day of a date object is present and canonical.\<close>

lemma valid_date_jd:
  assumes "valid_date U a"
  shows "\<exists>k. BaseDate_jd U a = Some (of_int k + 1/2)"
proof (cases a)
  case (JulianDay v)
  with assms canonicalE [of v] show ?thesis by auto
next
  case (GregorianDate c)
  show ?thesis
  proof (cases "cached_jd c")
    case None
    from GregorianDate_jd_half [OF this] GregorianDate show ?thesis by simp
  next
    case (Some v)
    with assms GregorianDate have "canonical v" by simp
    from canonicalE [OF this] Some GregorianDate show ?thesis
      by (auto simp add: GregorianDate_jd_def)
  qed
next
  case (HebrewDate c)
  show ?thesis
  proof (cases "cached_jd c")
    case None
    from assms HebrewDate None
    have "HebrewDate_init U (year c) (month c) (day c) None = Inr (HebrewDate c)" by simp
    then have c: "c = \<lparr>year = year c, month = month c, day = day c, cached_jd = None\<rparr>"
      and v: "1 \<le> year c" "month c \<in> set (hebrew_months U (year c))"
      by (simp_all add: HebrewDate_init_Inr_iff)
    from HebrewDate_jd_value [OF v, of "day c"] c HebrewDate show ?thesis
      by (metis BaseDate_jd.simps(3))
  next
    case (Some v)
    with assms HebrewDate have "canonical v" by simp
    from canonicalE [OF this] Some HebrewDate show ?thesis
      by (auto simp add: HebrewDate_jd_def)
  qed
qed

text \<open>With the calendar contract, the Julian Day of a Hebrew date lies after the epoch.\<close>

lemma valid_hebrew_after_epoch:
  assumes "calendar_contract U" "valid_date U (HebrewDate c)"
      and "BaseDate_jd U (HebrewDate c) = Some (of_int k + 1/2)"
  shows "347997 \<le> k"
proof (cases "cached_jd c")
  case (Some v)
  with assms(2) have "347997 < v" by simp
  moreover from Some assms(3) have "v = of_int k + 1/2" by (simp add: HebrewDate_jd_def)
  ultimately show ?thesis by linarith
next
  case None
  with assms(2)
  have i: "HebrewDate_init U (year c) (month c) (day c) None = Inr (HebrewDate c)" by simp
  then have c: "c = \<lparr>year = year c, month = month c, day = day c, cached_jd = None\<rparr>"
    and v: "1 \<le> year c" "month c \<in> set (hebrew_months U (year c))"
           "1 \<le> day c" "day c \<le> month_length U (year c) (month c)"
    by (simp_all add: HebrewDate_init_Inr_iff)
  from hebrew_roundtrip [OF assms(1) v] c obtain w where
    "HebrewDate_jd U c = Some w" "347997 < w" by metis
  with assms(3) have "(347997::real) < of_int k + 1/2" by simp
  then show ?thesis by linarith
qed

text \<open>
  Adding \<open>n\<close> days: the result is a date of the same class whose Julian Day is \<open>n\<close>
  later. For a Hebrew date the result has to lie after the epoch.
\<close>

lemma BaseDate_add_total:
  assumes "valid_date U a" "BaseDate_jd U a = Some (of_int k + 1/2)"
      and "\<forall>c. a = HebrewDate c \<longrightarrow> calendar_contract U \<and> 347997 \<le> k + n"
  shows "\<exists>s. BaseDate_add U a n = Some (Inr (Some s)) \<and> valid_date U s \<and> same_class a s \<and>
             BaseDate_jd U s = Some (of_int (k + n) + 1/2)"
proof -
  have v: "JulianDay_init (of_int k + 1/2 + of_int n) = of_int (k + n) + 1/2"
    using JulianDay_init_half [of "k + n"] by (simp add: algebra_simps)
  have add: "BaseDate_add U a n = JulianDay_to_x U (of_int (k + n) + 1/2) a"
    unfolding BaseDate_add_def assms(2) option.case v ..
  show ?thesis
  proof (cases a)
    case (JulianDay d)
    then show ?thesis unfolding add using canonical_half [of "k + n"] by simp
  next
    case (GregorianDate c)
    from to_greg_total_valid [of "k + n" U] obtain g where
      "JulianDay_to_greg (of_int (k + n) + 1/2) = Inr (GregorianDate g)"
      "valid_date U (GregorianDate g)"
      "BaseDate_jd U (GregorianDate g) = Some (of_int (k + n) + 1/2)" by blast
    with GregorianDate show ?thesis unfolding add by simp
  next
    case (HebrewDate c)
    from assms(3) this have "calendar_contract U" "347997 \<le> k + n" by simp_all
    from to_heb_total_valid [OF this] obtain h where
      "JulianDay_to_heb U (of_int (k + n) + 1/2) = Some (Inr (Some (HebrewDate h)))"
      "valid_date U (HebrewDate h)"
      "BaseDate_jd U (HebrewDate h) = Some (of_int (k + n) + 1/2)" by blast
    with HebrewDate show ?thesis unfolding add by simp
  qed
qed

lemma BaseDate_sub_number_add:
  "BaseDate_sub_number U a n = BaseDate_add U a (- n)"
  by (cases "BaseDate_jd U a") (simp_all add: BaseDate_sub_number_def BaseDate_add_def)



lemma same_class_trans: "same_class a b \<Longrightarrow> same_class b c \<Longrightarrow> same_class a c"
  by (cases a; cases b; cases c) simp_all


text \<open>
  C5 (as stated it fails): with the example calendar, the Hebrew date 25 Kislev 5781 is
  valid, and adding \<open>-2200000\<close> days to it raises "Date is before creation", because
  the day reached precedes the epoch of the Hebrew calendar.
\<close>

theorem C5_hebrew_epoch_counterexample:
  "HebrewDate_init example_utils 5781 9 25 None =
     Inr (HebrewDate \<lparr>year = 5781, month = 9, day = 25, cached_jd = None\<rparr>) \<and>
   BaseDate_add example_utils
     (HebrewDate \<lparr>year = 5781, month = 9, day = 25, cached_jd = None\<rparr>) (- 2200000) =
     Some (Inl BeforeCreation)"
proof -
  have a: "HebrewDate_init example_utils 5781 9 25 None =
     Inr (HebrewDate \<lparr>year = 5781, month = 9, day = 25, cached_jd = None\<rparr>)"
    by (simp add: HebrewDate_init_def example_utils_def)
  have b: "HebrewDate_jd example_utils \<lparr>year = 5781, month = 9, day = 25, cached_jd = None\<rparr> =
     Some (4915567/2)"
    by (simp add: HebrewDate_jd_def hebrew_months_def example_utils_def)
  have c: "JulianDay_init (4915567/2 + of_int (- 2200000)) = 515567/2"
    by (simp add: JulianDay_init_def py_int_def)
  have d: "JulianDay_to_heb example_utils (515567/2) = Some (Inl BeforeCreation)"
    by (simp add: JulianDay_to_heb_def)
  show ?thesis unfolding BaseDate_add_def BaseDate_jd.simps a b option.case c
    JulianDay_to_x.simps d by simp
qed

text \<open>
  C5 (amended): for every date object \<open>a\<close> and integer \<open>n\<close> of calendar size (the Julian
  Days of \<open>a\<close> and of \<open>a + n\<close> below \<open>2^50\<close> in absolute value, where the float
  arithmetic is exact), \<open>(a + n) - n\<close> is a date of the class of \<open>a\<close> that is equal to
  \<open>a\<close>: for a \<open>JulianDay\<close> and a \<open>GregorianDate\<close> always, and for a \<open>HebrewDate\<close>
  (with the calendar helpers meeting their contract) whenever \<open>a + n\<close> lies after the
  epoch \<open>347997\<close>; a \<open>HebrewDate\<close> plus an \<open>n\<close> that leads before the epoch raises
  "Date is before creation".
\<close>

theorem C5_add_sub_identity:
  assumes "valid_date U a" and "BaseDate_jd U a = Some v"
      and "\<bar>v\<bar> < 2^50" and "\<bar>v + of_int n\<bar> < 2^50"
  shows "((\<forall>c. a = HebrewDate c \<longrightarrow> calendar_contract U \<and> 347997 < v + of_int n) \<longrightarrow>
            (\<exists>s r. BaseDate_add U a n = Some (Inr (Some s)) \<and>
                   BaseDate_sub_number U s n = Some (Inr (Some r)) \<and>
                   same_class a r \<and> py_eq U r (Date a))) \<and>
         (\<forall>c. a = HebrewDate c \<and> v + of_int n < 347997 \<longrightarrow>
            BaseDate_add U a n = Some (Inl BeforeCreation))"
proof (intro conjI impI allI)
  from valid_date_jd [OF assms(1)] assms(2) obtain k where k: "v = of_int k + 1/2" by auto
  assume h: "\<forall>c. a = HebrewDate c \<longrightarrow> calendar_contract U \<and> 347997 < v + of_int n"
  have jd: "BaseDate_jd U a = Some (of_int k + 1/2)" using assms(2) k by simp
  have h1: "\<forall>c. a = HebrewDate c \<longrightarrow> calendar_contract U \<and> 347997 \<le> k + n"
  proof (intro allI impI)
    fix c assume "a = HebrewDate c"
    with h have "calendar_contract U" "347997 < v + of_int n" by simp_all
    with k show "calendar_contract U \<and> 347997 \<le> k + n" by (auto; linarith)
  qed
  from BaseDate_add_total [OF assms(1) jd h1] obtain s where s:
    "BaseDate_add U a n = Some (Inr (Some s))" "valid_date U s" "same_class a s"
    "BaseDate_jd U s = Some (of_int (k + n) + 1/2)" by blast
  have h2: "\<forall>c. s = HebrewDate c \<longrightarrow> calendar_contract U \<and> 347997 \<le> k + n + - n"
  proof (intro allI impI)
    fix c assume "s = HebrewDate c"
    with s(3) obtain c' where a: "a = HebrewDate c'" by (cases a) simp_all
    with h have c: "calendar_contract U" by simp
    from valid_hebrew_after_epoch [OF c] assms(1) jd a have "347997 \<le> k" by simp
    with c show "calendar_contract U \<and> 347997 \<le> k + n + - n" by simp
  qed
  from BaseDate_add_total [OF s(2) s(4) h2] obtain r where r:
    "BaseDate_add U s (- n) = Some (Inr (Some r))" "same_class s r"
    "BaseDate_jd U r = Some (of_int (k + n + - n) + 1/2)" by blast
  have "BaseDate_jd U r = BaseDate_jd U a" using r(3) jd by simp
  then have "py_eq U r (Date a)" by (simp add: py_eq_def)
  moreover have "same_class a r" using s(3) r(2) by (rule same_class_trans)
  ultimately show "\<exists>s r. BaseDate_add U a n = Some (Inr (Some s)) \<and>
                   BaseDate_sub_number U s n = Some (Inr (Some r)) \<and>
                   same_class a r \<and> py_eq U r (Date a)"
    using s(1) r(1) by (auto simp add: BaseDate_sub_number_add)
next
  fix c
  assume h: "a = HebrewDate c \<and> v + of_int n < 347997"
  from valid_date_jd [OF assms(1)] assms(2) obtain k where k: "v = of_int k + 1/2" by auto
  have "JulianDay_init (v + of_int n) = of_int (k + n) + 1/2"
    using JulianDay_init_half [of "k + n"] k by (simp add: algebra_simps)
  moreover have "(of_int (k + n) + 1/2 :: real) \<le> 347997" using h k by simp
  ultimately have "JulianDay_to_heb U (JulianDay_init (v + of_int n)) = Some (Inl BeforeCreation)"
    by (simp add: JulianDay_to_heb_def)
  with h assms(2) show "BaseDate_add U a n = Some (Inl BeforeCreation)"
    by (simp add: BaseDate_add_def)
qed

theorem C5_add_sub_identity_witness:
  "valid_date example_utils (HebrewDate \<lparr>year = 5781, month = 9, day = 25, cached_jd = None\<rparr>) \<and>
   BaseDate_jd example_utils (HebrewDate \<lparr>year = 5781, month = 9, day = 25, cached_jd = None\<rparr>) =
     Some (4915567/2) \<and>
   \<bar>4915567/2 :: real\<bar> < 2^50 \<and> \<bar>4915567/2 + of_int 10 :: real\<bar> < 2^50 \<and>
   calendar_contract example_utils \<and> (347997::real) < 4915567/2 + of_int 10 \<and>
   (\<exists>s r. BaseDate_add example_utils
            (HebrewDate \<lparr>year = 5781, month = 9, day = 25, cached_jd = None\<rparr>) 10 =
              Some (Inr (Some s)) \<and>
          BaseDate_sub_number example_utils s 10 = Some (Inr (Some r)) \<and>
          py_eq example_utils r
            (Date (HebrewDate \<lparr>year = 5781, month = 9, day = 25, cached_jd = None\<rparr>)))"
proof -
  have a: "valid_date example_utils
             (HebrewDate \<lparr>year = 5781, month = 9, day = 25, cached_jd = None\<rparr>)"
    by (simp add: HebrewDate_init_def example_utils_def)
  have b: "BaseDate_jd example_utils
             (HebrewDate \<lparr>year = 5781, month = 9, day = 25, cached_jd = None\<rparr>) =
           Some (4915567/2)"
    by (simp add: HebrewDate_jd_def hebrew_months_def example_utils_def)
  have c: "\<bar>4915567/2 :: real\<bar> < 2^50" and d: "\<bar>4915567/2 + of_int 10 :: real\<bar> < 2^50"
    by simp_all
  from C5_add_sub_identity [OF a b c d] a b c d example_utils_contract
  show ?thesis by auto
qed






end
